theory Spec2Isabelle
  imports Complex_Main "HOL-Library.Word" "HOL-Library.Log_Nat"
begin

section \<open>The message thread of libtgvoip (MessageThread.cpp)\<close>

text \<open>
  A shallow embedding of \<^verbatim>\<open>tgvoip::MessageThread\<close>. A time stamp, a C++ \<^verbatim>\<open>double\<close>,
  is a \<^typ>\<open>real\<close>: NaN and the infinities are outside the model. The addition
  \<^verbatim>\<open>m.deliverAt+=m.interval\<close>, whose result a property below is about, rounds as the
  addition of doubles does. The \<^verbatim>\<open>uint32_t\<close> message counter is a 32-bit word, so that
  \<^verbatim>\<open>lastMessageID++\<close> wraps around. The mutex and the condition variable are not state
  of the model: every operation below is one critical section, and other threads act
  on the object only while the worker is inside its wait, which is where the model
  lets them act.
\<close>

subsection \<open>Data\<close>

type_synonym msgid = "32 word"

text \<open>
  \<^verbatim>\<open>struct Message { uint32_t id; double deliverAt; double interval; std::function<void()> func; }\<close>.
  A callback is a handle of type \<open>'f\<close>; \<open>None\<close> is the empty \<^verbatim>\<open>std::function\<close>
  (\<^verbatim>\<open>func == nullptr\<close>). What a handle does when it is called is a parameter of the
  delivery loop.
\<close>

record 'f Message =
  id_msg :: msgid
  deliverAt :: real
  interval :: real
  func :: "'f option"

text \<open>
  The members of the object (\<open>queue\<close>, \<open>running\<close>, \<open>hardStopped\<close>, \<open>cancelCurrent\<close>,
  \<open>lastMessageID\<close>), together with what surrounds it: \<open>ticks\<close> counts the calls of
  \<^verbatim>\<open>VoIPController::GetCurrentTime()\<close> made so far, \<open>env\<close> is the state the callbacks
  close over, and \<open>delivered\<close> is an observation log: the messages in the order in which
  the delivery loop has handled them, each as it came from the queue and paired with the
  \<^verbatim>\<open>deliverAt\<close> it carries when its callback is called (for an immediate message, the
  time it has been stamped with).
\<close>

record ('f, 'e) world =
  queue :: "'f Message list"
  running :: bool
  hardStopped :: bool
  cancelCurrent :: bool
  lastMessageID :: msgid
  ticks :: nat
  env :: 'e
  delivered :: "('f Message \<times> real) list"

datatype error = AssertionFailed

text \<open>
  What a callback can do to the message thread from inside the worker: \<^verbatim>\<open>Post\<close> (and use
  the id it returns), \<^verbatim>\<open>Cancel\<close>, \<^verbatim>\<open>CancelSelf\<close>, and finally return, leaving its own
  captured state behind. \<^verbatim>\<open>Stop\<close> and \<^verbatim>\<open>HardStop\<close> take the queue mutex without asking
  \<^verbatim>\<open>IsCurrent()\<close>; the worker holds that mutex, which is not reentrant, while a callback
  runs, so a call of one of them from a callback does not return, and a callback has
  neither among its steps.
\<close>

datatype ('f, 'e) prog =
  Return 'e
| DoPost "'f option" real real "msgid \<Rightarrow> ('f, 'e) prog"
| DoCancel msgid "('f, 'e) prog"
| DoCancelSelf "('f, 'e) prog"

text \<open>What another thread can do, while the worker waits.\<close>

datatype 'f ext = ExtPost "'f option" real real | ExtCancel msgid | ExtStop | ExtHardStop

subsection \<open>The time source\<close>

text \<open>
  \<^verbatim>\<open>VoIPController::GetCurrentTime()\<close> is not part of these sources: the clock is a
  parameter \<open>now\<close>, the value of the \<open>n\<close>-th reading.
\<close>

definition GetCurrentTime :: "(nat \<Rightarrow> real) \<Rightarrow> ('f, 'e) world \<Rightarrow> real \<times> ('f, 'e) world" where
  "GetCurrentTime now w = (now (ticks w), w\<lparr>ticks := Suc (ticks w)\<rparr>)"

subsection \<open>The addition of doubles\<close>

text \<open>
  Rounding to the nearest integer, a tie going to the even one.
\<close>

definition round_half_even :: "real \<Rightarrow> int" where
  "round_half_even y =
     (let f = \<lfloor>y\<rfloor>
      in if y - of_int f < 1 / 2 then f
         else if y - of_int f > 1 / 2 then f + 1
         else if even f then f else f + 1)"

text \<open>
  Rounding a real to the nearest double (IEEE 754 binary64, round to nearest, ties to
  even, the mode a C++ program runs in unless it changes it; this one does not). In
  units of \<open>2 ^ -1074\<close>, the smallest positive double, a double is an integer of at
  most 53 bits times a power of two: \<open>s\<close> is the distance between neighbouring doubles
  at the size of \<open>x\<close>, which is 1 for the subnormal numbers and the smallest normal
  ones. A result of magnitude \<open>2 ^ 1024\<close> or more is an infinity in the code, and like
  the infinities outside the model: a property that states such a result assumes it
  smaller.
\<close>

definition round_double :: "real \<Rightarrow> real" where
  "round_double x =
     (let y = x * 2 ^ 1074;
          s = 2 ^ nat (bitlen \<lfloor>\<bar>y\<bar>\<rfloor> - 53)
      in of_int (round_half_even (y / s)) * s / 2 ^ 1074)"

text \<open>The sum of two doubles: the exact sum, rounded.\<close>

definition add_double :: "real \<Rightarrow> real \<Rightarrow> real" where
  "add_double a b = round_double (a + b)"

subsection \<open>InsertMessageInternal\<close>

text \<open>
  The \<^verbatim>\<open>for\<close> loop of \<^verbatim>\<open>InsertMessageInternal\<close>: \<open>insertAfter\<close> is the head of the list,
  \<open>next\<close> the element after it. The loop is entered on a non-empty queue only.
\<close>

fun InsertMessageInternal_loop :: "'f Message \<Rightarrow> 'f Message list \<Rightarrow> 'f Message list" where
  "InsertMessageInternal_loop m [] = []"
| "InsertMessageInternal_loop m [a] = [a, m]"
| "InsertMessageInternal_loop m (a # b # rest) =
     (if deliverAt b > deliverAt m \<and> deliverAt a \<le> deliverAt m
      then a # m # b # rest
      else a # InsertMessageInternal_loop m (b # rest))"

definition InsertMessageInternal :: "'f Message \<Rightarrow> 'f Message list \<Rightarrow> 'f Message list" where
  "InsertMessageInternal m q =
     (case q of
        [] \<Rightarrow> [m]
      | a # _ \<Rightarrow> if deliverAt a > deliverAt m then m # q else InsertMessageInternal_loop m q)"

subsection \<open>Post, Cancel, CancelSelf, Stop, HardStop\<close>

text \<open>
  \<^verbatim>\<open>Post\<close> up to its \<^verbatim>\<open>return\<close>: the result is the local variable \<open>m\<close> and the world
  after the insertion. \<^verbatim>\<open>assert(delay>=0)\<close> is the only way to fail.
  The sum \<^verbatim>\<open>currentTime+delay\<close> stands as written, as a sum of reals: the properties
  below name it and do not depend on its value.
\<close>

definition Post_message ::
  "(nat \<Rightarrow> real) \<Rightarrow> 'f option \<Rightarrow> real \<Rightarrow> real \<Rightarrow> ('f, 'e) world \<Rightarrow> error + ('f Message \<times> ('f, 'e) world)" where
  "Post_message now f delay ival w =
     (if \<not> delay \<ge> 0 then Inl AssertionFailed
      else
        let (currentTime, w1) = GetCurrentTime now w;
            m = \<lparr>id_msg = lastMessageID w1,
                 deliverAt = (if delay = 0 then 0 else currentTime + delay),
                 interval = ival, func = f\<rparr>;
            w2 = w1\<lparr>lastMessageID := lastMessageID w1 + 1\<rparr>
        in Inr (m, w2\<lparr>queue := InsertMessageInternal m (queue w2)\<rparr>))"

definition Post ::
  "(nat \<Rightarrow> real) \<Rightarrow> 'f option \<Rightarrow> real \<Rightarrow> real \<Rightarrow> ('f, 'e) world \<Rightarrow> error + (msgid \<times> ('f, 'e) world)" where
  "Post now f delay ival w =
     (case Post_message now f delay ival w of
        Inl e \<Rightarrow> Inl e
      | Inr (m, w') \<Rightarrow> Inr (id_msg m, w'))"

text \<open>The erase loop of \<^verbatim>\<open>Cancel\<close>.\<close>

fun Cancel_loop :: "msgid \<Rightarrow> 'f Message list \<Rightarrow> 'f Message list" where
  "Cancel_loop i [] = []"
| "Cancel_loop i (m # ms) = (if id_msg m = i then Cancel_loop i ms else m # Cancel_loop i ms)"

definition Cancel :: "msgid \<Rightarrow> ('f, 'e) world \<Rightarrow> ('f, 'e) world" where
  "Cancel i w = w\<lparr>queue := Cancel_loop i (queue w)\<rparr>"

text \<open>\<^verbatim>\<open>CancelSelf\<close>; \<open>isCurrent\<close> is the value of \<^verbatim>\<open>IsCurrent()\<close> in the calling thread.\<close>

definition CancelSelf :: "bool \<Rightarrow> ('f, 'e) world \<Rightarrow> error + ('f, 'e) world" where
  "CancelSelf isCurrent w =
     (if \<not> isCurrent then Inl AssertionFailed else Inr (w\<lparr>cancelCurrent := True\<rparr>))"

definition HardStop :: "('f, 'e) world \<Rightarrow> ('f, 'e) world" where
  "HardStop w = w\<lparr>running := False, hardStopped := True, queue := []\<rparr>"

definition Stop :: "('f, 'e) world \<Rightarrow> ('f, 'e) world" where
  "Stop w = w\<lparr>running := False, queue := []\<rparr>"

subsection \<open>The delivery loop: Run\<close>

text \<open>
  Calling \<^verbatim>\<open>m.func()\<close>: \<open>call f e\<close> is what the callback \<open>f\<close> does when its captured
  state is \<open>e\<close>. Its calls of \<^verbatim>\<open>Post\<close>, \<^verbatim>\<open>Cancel\<close> and \<^verbatim>\<open>CancelSelf\<close> are made in the
  worker thread, where \<^verbatim>\<open>IsCurrent()\<close> holds.
\<close>

primrec run_prog :: "(nat \<Rightarrow> real) \<Rightarrow> ('f, 'e) prog \<Rightarrow> ('f, 'e) world \<Rightarrow> error + ('f, 'e) world" where
  "run_prog now (Return e) w = Inr (w\<lparr>env := e\<rparr>)"
| "run_prog now (DoPost f delay ival k) w =
     (case Post now f delay ival w of
        Inl e \<Rightarrow> Inl e
      | Inr (r, w') \<Rightarrow> run_prog now (k r) w')"
| "run_prog now (DoCancel i k) w = run_prog now k (Cancel i w)"
| "run_prog now (DoCancelSelf k) w =
     (case CancelSelf True w of
        Inl e \<Rightarrow> Inl e
      | Inr w' \<Rightarrow> run_prog now k w')"

text \<open>
  Whether the program, run from \<open>w\<close>, gets to call \<^verbatim>\<open>CancelSelf\<close> (it does not when an
  assertion stops it earlier).
\<close>

primrec calls_CancelSelf :: "(nat \<Rightarrow> real) \<Rightarrow> ('f, 'e) prog \<Rightarrow> ('f, 'e) world \<Rightarrow> bool" where
  "calls_CancelSelf now (Return e) w = False"
| "calls_CancelSelf now (DoPost f delay ival k) w =
     (case Post now f delay ival w of
        Inl e \<Rightarrow> False
      | Inr (r, w') \<Rightarrow> calls_CancelSelf now (k r) w')"
| "calls_CancelSelf now (DoCancel i k) w = calls_CancelSelf now k (Cancel i w)"
| "calls_CancelSelf now (DoCancelSelf k) w = True"

text \<open>
  The body of the loop \<^verbatim>\<open>for(Message& m:msgsToDeliverNow)\<close>, in three parts. Before the
  call: the flag is cleared and an immediate message is stamped with the time; the log
  notes the message as it came from the queue and the \<^verbatim>\<open>deliverAt\<close> it carries now.
\<close>

definition begin_delivery ::
  "(nat \<Rightarrow> real) \<Rightarrow> 'f Message \<Rightarrow> ('f, 'e) world \<Rightarrow> 'f Message \<times> ('f, 'e) world" where
  "begin_delivery now m w =
     (let w1 = w\<lparr>cancelCurrent := False\<rparr>;
          (m1, w2) = (if deliverAt m = 0
                      then (let (t, w') = GetCurrentTime now w1 in (m\<lparr>deliverAt := t\<rparr>, w'))
                      else (m, w1))
      in (m1, w2\<lparr>delivered := delivered w2 @ [(m, deliverAt m1)]\<rparr>))"

text \<open>The call: \<^verbatim>\<open>if(m.func!=nullptr) m.func();\<close>\<close>

definition invoke ::
  "(nat \<Rightarrow> real) \<Rightarrow> ('f \<Rightarrow> 'e \<Rightarrow> ('f, 'e) prog) \<Rightarrow> 'f Message \<Rightarrow> ('f, 'e) world \<Rightarrow> error + ('f, 'e) world" where
  "invoke now call m1 w =
     (case func m1 of
        None \<Rightarrow> Inr w
      | Some f \<Rightarrow> run_prog now (call f (env w)) w)"

text \<open>After the call: \<^verbatim>\<open>if(!cancelCurrent && m.interval>0.0){ m.deliverAt+=m.interval; InsertMessageInternal(m); }\<close>\<close>

definition reinsert :: "'f Message \<Rightarrow> ('f, 'e) world \<Rightarrow> ('f, 'e) world" where
  "reinsert m1 w =
     (if \<not> cancelCurrent w \<and> interval m1 > 0
      then w\<lparr>queue :=
             InsertMessageInternal (m1\<lparr>deliverAt := add_double (deliverAt m1) (interval m1)\<rparr>) (queue w)\<rparr>
      else w)"

definition deliver ::
  "(nat \<Rightarrow> real) \<Rightarrow> ('f \<Rightarrow> 'e \<Rightarrow> ('f, 'e) prog) \<Rightarrow> 'f Message \<Rightarrow> ('f, 'e) world \<Rightarrow> error + ('f, 'e) world" where
  "deliver now call m w =
     (let (m1, w1) = begin_delivery now m w
      in case invoke now call m1 w1 of
           Inl e \<Rightarrow> Inl e
         | Inr w2 \<Rightarrow> Inr (reinsert m1 w2))"

fun deliver_all ::
  "(nat \<Rightarrow> real) \<Rightarrow> ('f \<Rightarrow> 'e \<Rightarrow> ('f, 'e) prog) \<Rightarrow> 'f Message list \<Rightarrow> ('f, 'e) world \<Rightarrow> error + ('f, 'e) world" where
  "deliver_all now call [] w = Inr w"
| "deliver_all now call (m # ms) w =
     (case deliver now call m w of
        Inl e \<Rightarrow> Inl e
      | Inr w' \<Rightarrow> deliver_all now call ms w')"

text \<open>
  The loop that moves the due messages from the queue to \<^verbatim>\<open>msgsToDeliverNow\<close>: the
  result is \<^verbatim>\<open>msgsToDeliverNow\<close> and what stays in the queue.
\<close>

fun drain :: "real \<Rightarrow> 'f Message list \<Rightarrow> 'f Message list \<times> 'f Message list" where
  "drain currentTime [] = ([], [])"
| "drain currentTime (m # ms) =
     (let (msgsToDeliverNow, rest) = drain currentTime ms
      in if deliverAt m = 0 \<or> currentTime \<ge> deliverAt m
         then (m # msgsToDeliverNow, rest)
         else (msgsToDeliverNow, m # rest))"

text \<open>The calls other threads make while the worker is inside its wait.\<close>

fun external_op :: "(nat \<Rightarrow> real) \<Rightarrow> 'f ext \<Rightarrow> ('f, 'e) world \<Rightarrow> error + ('f, 'e) world" where
  "external_op now (ExtPost f delay ival) w =
     (case Post now f delay ival w of Inl e \<Rightarrow> Inl e | Inr (r, w') \<Rightarrow> Inr w')"
| "external_op now (ExtCancel i) w = Inr (Cancel i w)"
| "external_op now ExtStop w = Inr (Stop w)"
| "external_op now ExtHardStop w = Inr (HardStop w)"

text \<open>The precondition of a call from another thread: \<^verbatim>\<open>assert(delay>=0)\<close> in \<^verbatim>\<open>Post\<close>.\<close>

fun ext_ok :: "'f ext \<Rightarrow> bool" where
  "ext_ok (ExtPost f delay ival) = (0 \<le> delay)"
| "ext_ok (ExtCancel i) = True"
| "ext_ok ExtStop = True"
| "ext_ok ExtHardStop = True"

fun external_ops :: "(nat \<Rightarrow> real) \<Rightarrow> 'f ext list \<Rightarrow> ('f, 'e) world \<Rightarrow> error + ('f, 'e) world" where
  "external_ops now [] w = Inr w"
| "external_ops now (ev # evs) w =
     (case external_op now ev w of
        Inl e \<Rightarrow> Inl e
      | Inr w' \<Rightarrow> external_ops now evs w')"

text \<open>
  One pass through the body of \<^verbatim>\<open>while(running)\<close>, in two parts. First the wait: the
  worker waits when the queue is empty (\<^verbatim>\<open>DBL_MAX\<close>) or its first message is not due;
  \<open>evs\<close> are the calls that other threads make during that wait (when the worker does
  not wait it keeps the mutex, and nobody else gets in).
\<close>

definition wait :: "(nat \<Rightarrow> real) \<Rightarrow> 'f ext list \<Rightarrow> ('f, 'e) world \<Rightarrow> error + ('f, 'e) world" where
  "wait now evs w =
     (let (currentTime, w1) = GetCurrentTime now w;
          waits = (case queue w1 of [] \<Rightarrow> True | a # _ \<Rightarrow> deliverAt a - currentTime > 0)
      in if waits then external_ops now evs w1 else Inr w1)"

text \<open>
  A pass ends in \<^verbatim>\<open>break\<close>, at the end of the body, or in a failed assertion. The
  second part of the pass, from the second reading of the clock on: the due messages
  leave the queue and, unless \<open>hardStopped\<close> is set, are delivered.
\<close>

datatype ('f, 'e) pass = Break "('f, 'e) world" | Continue "('f, 'e) world" | Abort error

definition deliver_due ::
  "(nat \<Rightarrow> real) \<Rightarrow> ('f \<Rightarrow> 'e \<Rightarrow> ('f, 'e) prog) \<Rightarrow> ('f, 'e) world \<Rightarrow> ('f, 'e) pass" where
  "deliver_due now call w =
     (let (currentTime, w3) = GetCurrentTime now w;
          (msgsToDeliverNow, rest) = drain currentTime (queue w3);
          w4 = w3\<lparr>queue := rest\<rparr>
      in if hardStopped w4 then Break w4
         else (case deliver_all now call msgsToDeliverNow w4 of
                 Inl e \<Rightarrow> Abort e
               | Inr w5 \<Rightarrow> Continue w5))"

definition iteration ::
  "(nat \<Rightarrow> real) \<Rightarrow> ('f \<Rightarrow> 'e \<Rightarrow> ('f, 'e) prog) \<Rightarrow> 'f ext list \<Rightarrow> ('f, 'e) world \<Rightarrow> ('f, 'e) pass" where
  "iteration now call evs w =
     (case wait now evs w of
        Inl e \<Rightarrow> Abort e
      | Inr w2 \<Rightarrow> if \<not> running w2 then Break w2 else deliver_due now call w2)"

text \<open>
  \<^verbatim>\<open>Run\<close>, for as many passes as the schedule of the other threads is long. \<open>Exited\<close>:
  the loop has been left; \<open>Looping\<close>: the worker is still in the loop when the schedule
  ends; \<open>Aborted\<close>: an assertion has failed.
\<close>

datatype ('f, 'e) outcome = Exited "('f, 'e) world" | Looping "('f, 'e) world" | Aborted error

fun Run ::
  "(nat \<Rightarrow> real) \<Rightarrow> ('f \<Rightarrow> 'e \<Rightarrow> ('f, 'e) prog) \<Rightarrow> 'f ext list list \<Rightarrow> ('f, 'e) world \<Rightarrow> ('f, 'e) outcome" where
  "Run now call [] w = (if running w then Looping w else Exited w)"
| "Run now call (evs # sched) w =
     (if \<not> running w then Exited w
      else (case iteration now call evs w of
              Break w' \<Rightarrow> Exited w'
            | Continue w' \<Rightarrow> Run now call sched w'
            | Abort e \<Rightarrow> Aborted e))"

text \<open>A sequence of \<^verbatim>\<open>Post\<close> calls; the result lists the messages made, in the order of the calls.\<close>

fun Post_all ::
  "(nat \<Rightarrow> real) \<Rightarrow> ('f option \<times> real \<times> real) list \<Rightarrow> ('f, 'e) world \<Rightarrow> error + ('f Message list \<times> ('f, 'e) world)" where
  "Post_all now [] w = Inr ([], w)"
| "Post_all now ((f, delay, ival) # ps) w =
     (case Post_message now f delay ival w of
        Inl e \<Rightarrow> Inl e
      | Inr (m, w') \<Rightarrow>
          (case Post_all now ps w' of
             Inl e \<Rightarrow> Inl e
           | Inr (ms, w'') \<Rightarrow> Inr (m # ms, w'')))"

subsection \<open>Concrete clocks, callbacks and worlds\<close>

text \<open>A clock that advances by one second from one reading to the next.\<close>

definition clock_seconds :: "nat \<Rightarrow> real" where
  "clock_seconds n = real n"

text \<open>A callback that leaves the message thread alone.\<close>

definition idle :: "nat \<Rightarrow> nat \<Rightarrow> (nat, nat) prog" where
  "idle f e = Return e"

text \<open>The started object with an empty queue, its counter at \<open>c\<close>.\<close>

definition started :: "msgid \<Rightarrow> (nat, nat) world" where
  "started c = \<lparr>queue = [], running = True, hardStopped = False, cancelCurrent = False,
     lastMessageID = c, ticks = 0, env = 0, delivered = []\<rparr>"

text \<open>A one-shot message without a callback.\<close>

definition plain :: "msgid \<Rightarrow> real \<Rightarrow> nat Message" where
  "plain i t = \<lparr>id_msg = i, deliverAt = t, interval = 0, func = None\<rparr>"

text \<open>
  A callback that counts its calls in its captured state and calls \<^verbatim>\<open>CancelSelf\<close> in
  the third one.
\<close>

definition cancel_on_third :: "nat \<Rightarrow> nat \<Rightarrow> (nat, nat) prog" where
  "cancel_on_third f n = (if Suc n = 3 then DoCancelSelf (Return (Suc n)) else Return (Suc n))"


text \<open>
  A clock that reads 10 twice and \<open>t\<close> from then on: the worker gets to run only at
  time \<open>t\<close>.
\<close>

definition clock_jump :: "real \<Rightarrow> nat \<Rightarrow> real" where
  "clock_jump t n = (if n < 2 then 10 else t)"





section \<open>Properties\<close>

subsection \<open>Rounding\<close>

lemma bitlen_eq:
  assumes "2 ^ n \<le> x" "x < 2 ^ Suc n"
  shows "bitlen x = int (Suc n)"
proof -
  have "nat (int (Suc n)) = Suc n" "nat (int (Suc n)) - 1 = n" by simp_all
  then have "bitlen x \<le> int (Suc n)" using assms(2) by (simp only: bitlen_le_iff_power) simp
  moreover have "int (Suc n) \<le> bitlen x"
    using assms(1) \<open>nat (int (Suc n)) - 1 = n\<close> by (simp only: bitlen_ge_iff_power) simp
  ultimately show ?thesis by simp
qed

text \<open>Between \<open>2 ^ e\<close> and \<open>2 ^ (e + 1)\<close> the doubles are the multiples of \<open>2 ^ (e - 52)\<close>.\<close>

lemma round_double_range:
  assumes lo: "2 ^ e \<le> \<bar>x\<bar>" and hi: "\<bar>x\<bar> < 2 ^ Suc e" and e: "e \<le> 52"
  shows "round_double x = of_int (round_half_even (x * 2 ^ (52 - e))) / 2 ^ (52 - e)"
proof -
  let ?y = "x * 2 ^ 1074"
  have ay: "\<bar>?y\<bar> = \<bar>x\<bar> * 2 ^ 1074" by (simp add: abs_mult)
  have 1: "(2::real) ^ (e + 1074) \<le> \<bar>?y\<bar>"
    unfolding ay power_add using lo by simp
  have 2: "\<bar>?y\<bar> < (2::real) ^ Suc (e + 1074)"
  proof -
    have "\<bar>x\<bar> * 2 ^ 1074 < 2 ^ Suc e * 2 ^ 1074" using hi by simp
    also have "\<dots> = (2::real) ^ Suc (e + 1074)" by (simp add: power_add)
    finally show ?thesis unfolding ay .
  qed
  have f1: "(2::int) ^ (e + 1074) \<le> \<lfloor>\<bar>?y\<bar>\<rfloor>"
  proof -
    have "of_int ((2::int) ^ (e + 1074)) \<le> \<bar>?y\<bar>" using 1 by simp
    then show ?thesis by (simp only: le_floor_iff)
  qed
  have f2: "\<lfloor>\<bar>?y\<bar>\<rfloor> < (2::int) ^ Suc (e + 1074)"
  proof -
    have "\<bar>?y\<bar> < of_int ((2::int) ^ Suc (e + 1074))" using 2 by simp
    then show ?thesis by (simp only: floor_less_iff)
  qed
  have b: "bitlen \<lfloor>\<bar>?y\<bar>\<rfloor> = int (Suc (e + 1074))" using f1 f2 by (rule bitlen_eq)
  have s: "nat (bitlen \<lfloor>\<bar>?y\<bar>\<rfloor> - 53) = e + 1022" unfolding b by simp
  have p: "(2::real) ^ 1074 = 2 ^ (52 - e) * 2 ^ (e + 1022)"
  proof -
    have "(52 - e) + (e + 1022) = 1074" using e by simp
    then show ?thesis by (metis power_add)
  qed
  have q: "?y / 2 ^ (e + 1022) = x * 2 ^ (52 - e)" unfolding p by simp
  have "round_double x = of_int (round_half_even (?y / 2 ^ (e + 1022))) * 2 ^ (e + 1022) / 2 ^ 1074"
    unfolding round_double_def Let_def s ..
  also have "\<dots> = of_int (round_half_even (x * 2 ^ (52 - e))) * 2 ^ (e + 1022) / (2 ^ (52 - e) * 2 ^ (e + 1022))"
    unfolding q using p by simp
  also have "\<dots> = of_int (round_half_even (x * 2 ^ (52 - e))) / 2 ^ (52 - e)" by simp
  finally show ?thesis .
qed

lemma round_half_even_bounds:
  "y - 1 / 2 \<le> of_int (round_half_even y) \<and> of_int (round_half_even y) \<le> y + 1 / 2"
  unfolding round_half_even_def Let_def by (auto; linarith)

text \<open>Sums between 2 and 4: the rounding moves them by \<open>2 ^ -52\<close> at most.\<close>

lemma add_double_near:
  assumes "2 \<le> a + b" "a + b < 4"
  shows "a + b - 1 / 2 ^ 52 \<le> add_double a b \<and> add_double a b \<le> a + b + 1 / 2 ^ 52"
proof -
  have r: "add_double a b = of_int (round_half_even ((a + b) * 2 ^ 51)) / 2 ^ 51"
    unfolding add_double_def using assms by (subst round_double_range [where e = 1]) simp_all
  from round_half_even_bounds [of "(a + b) * 2 ^ 51"]
  have "((a + b) * 2 ^ 51 - 1 / 2) / 2 ^ 51 \<le> add_double a b"
    and "add_double a b \<le> ((a + b) * 2 ^ 51 + 1 / 2) / 2 ^ 51"
    unfolding r by (simp_all add: divide_right_mono)
  then show ?thesis by (simp add: field_simps)
qed








subsection \<open>Insertion\<close>

lemma InsertMessageInternal_loop_sorted:
  "sorted (map deliverAt q) \<Longrightarrow> q \<noteq> [] \<Longrightarrow> deliverAt (hd q) \<le> deliverAt m \<Longrightarrow>
   InsertMessageInternal_loop m q =
     takeWhile (\<lambda>x. deliverAt x \<le> deliverAt m) q @ m # dropWhile (\<lambda>x. deliverAt x \<le> deliverAt m) q"
proof (induction m q rule: InsertMessageInternal_loop.induct)
  case (1 m)
  then show ?case by simp
next
  case (2 m a)
  then show ?case by simp
next
  case (3 m a b rest)
  then show ?case by (auto simp: not_less)
qed

lemma InsertMessageInternal_position:
  "sorted (map deliverAt q) \<Longrightarrow>
   InsertMessageInternal m q =
     takeWhile (\<lambda>x. deliverAt x \<le> deliverAt m) q @ m # dropWhile (\<lambda>x. deliverAt x \<le> deliverAt m) q"
  by (cases q)
    (simp_all add: InsertMessageInternal_def InsertMessageInternal_loop_sorted not_less
      del: InsertMessageInternal_loop.simps)

lemma InsertMessageInternal_sorted:
  assumes s: "sorted (map deliverAt q)"
  shows "sorted (map deliverAt (InsertMessageInternal m q))"
proof -
  let ?P = "\<lambda>x. deliverAt x \<le> deliverAt m"
  have a: "sorted (map deliverAt (takeWhile ?P q))"
    using s by (metis sorted_append takeWhile_dropWhile_id map_append)
  have b: "sorted (map deliverAt (dropWhile ?P q))"
    using s by (metis sorted_append takeWhile_dropWhile_id map_append)
  have c: "\<forall>x \<in> set (takeWhile ?P q). deliverAt x \<le> deliverAt m"
    by (auto dest: set_takeWhileD)
  have d: "\<forall>x \<in> set (dropWhile ?P q). deliverAt m < deliverAt x"
  proof (cases "dropWhile ?P q")
    case Nil
    show ?thesis unfolding Nil by simp
  next
    case (Cons y ys)
    then have "\<not> ?P y" by (metis hd_dropWhile list.sel(1) list.distinct(1))
    moreover have "\<forall>x \<in> set ys. deliverAt y \<le> deliverAt x" using b Cons by simp
    ultimately show ?thesis using Cons by fastforce
  qed
  show ?thesis
    unfolding InsertMessageInternal_position [OF s]
    using a b c d by (fastforce simp: sorted_append)
qed

subsection \<open>Cancel\<close>

lemma Cancel_loop_filter: "Cancel_loop i q = filter (\<lambda>m. id_msg m \<noteq> i) q"
  by (induction q) auto

text \<open>
  C4. \<^verbatim>\<open>Cancel(id)\<close> changes the queue only, into the queue without the messages of that
  id: every message of another id stays, in the same order. No message of that id is
  left, and when the queue has no message of that id the call changes nothing.
\<close>

theorem Cancel_removes_matching:
  "Cancel i w = w\<lparr>queue := filter (\<lambda>m. id_msg m \<noteq> i) (queue w)\<rparr>
   \<and> (\<forall>m \<in> set (queue (Cancel i w)). id_msg m \<noteq> i)
   \<and> (i \<notin> id_msg ` set (queue w) \<longrightarrow> Cancel i w = w)"
proof -
  have a: "Cancel i w = w\<lparr>queue := filter (\<lambda>m. id_msg m \<noteq> i) (queue w)\<rparr>"
    by (simp add: Cancel_def Cancel_loop_filter)
  have b: "\<forall>m \<in> set (queue (Cancel i w)). id_msg m \<noteq> i"
    by (simp add: a)
  have c: "i \<notin> id_msg ` set (queue w) \<longrightarrow> Cancel i w = w"
  proof
    assume "i \<notin> id_msg ` set (queue w)"
    then have "filter (\<lambda>m. id_msg m \<noteq> i) (queue w) = queue w"
      by (auto simp: filter_id_conv)
    then show "Cancel i w = w" by (simp add: a)
  qed
  from a b c show ?thesis by blast
qed

theorem Cancel_removes_matching_witness:
  "Cancel 1 (started 4\<lparr>queue := [plain 1 5, plain 2 6, plain 1 7]\<rparr>)
     = started 4\<lparr>queue := [plain 2 6]\<rparr>
   \<and> Cancel 3 (started 4\<lparr>queue := [plain 1 5, plain 2 6, plain 1 7]\<rparr>)
     = started 4\<lparr>queue := [plain 1 5, plain 2 6, plain 1 7]\<rparr>"
  using Cancel_removes_matching [of 1 "started 4\<lparr>queue := [plain 1 5, plain 2 6, plain 1 7]\<rparr>"]
    Cancel_removes_matching [of 3 "started 4\<lparr>queue := [plain 1 5, plain 2 6, plain 1 7]\<rparr>"]
  by (simp add: plain_def)

subsection \<open>Stop and HardStop\<close>

text \<open>
  C9. A second \<^verbatim>\<open>Stop\<close> after a \<^verbatim>\<open>Stop\<close>, a second \<^verbatim>\<open>HardStop\<close> after a \<^verbatim>\<open>HardStop\<close>,
  and a \<^verbatim>\<open>Stop\<close> after a \<^verbatim>\<open>HardStop\<close> leave the whole state as it is.
\<close>

theorem Stop_HardStop_idempotent:
  "Stop (Stop w) = Stop w \<and> HardStop (HardStop w) = HardStop w \<and> Stop (HardStop w) = HardStop w"
  by (simp add: Stop_def HardStop_def)

subsection \<open>Post and the callbacks\<close>

lemma Post_message_Inr:
  "0 \<le> delay \<Longrightarrow>
   Post_message now f delay ival w =
     Inr (\<lparr>id_msg = lastMessageID w, deliverAt = (if delay = 0 then 0 else now (ticks w) + delay),
           interval = ival, func = f\<rparr>,
          w\<lparr>ticks := Suc (ticks w), lastMessageID := lastMessageID w + 1,
            queue := InsertMessageInternal
              \<lparr>id_msg = lastMessageID w, deliverAt = (if delay = 0 then 0 else now (ticks w) + delay),
               interval = ival, func = f\<rparr> (queue w)\<rparr>)"
  by (simp add: Post_message_def GetCurrentTime_def Let_def)

lemma Post_message_Inl: "\<not> 0 \<le> delay \<Longrightarrow> Post_message now f delay ival w = Inl AssertionFailed"
  by (simp add: Post_message_def)

lemma Post_message_cases:
  assumes "Post_message now f delay ival w = Inr (m, w')"
  shows "0 \<le> delay"
    and "m = \<lparr>id_msg = lastMessageID w, deliverAt = (if delay = 0 then 0 else now (ticks w) + delay),
           interval = ival, func = f\<rparr>"
    and "w' = w\<lparr>ticks := Suc (ticks w), lastMessageID := lastMessageID w + 1,
            queue := InsertMessageInternal m (queue w)\<rparr>"
  using assms by (cases "0 \<le> delay"; simp add: Post_message_Inr Post_message_Inl)+

lemma Post_cases:
  assumes "Post now f delay ival w = Inr (r, w')"
  shows "\<exists>m. Post_message now f delay ival w = Inr (m, w') \<and> r = id_msg m"
  using assms by (auto simp: Post_def split: sum.splits)

lemma Post_message_sorted:
  "Post_message now f delay ival w = Inr (m, w') \<Longrightarrow> sorted (map deliverAt (queue w))
   \<Longrightarrow> sorted (map deliverAt (queue w'))"
  by (frule Post_message_cases(3)) (simp add: InsertMessageInternal_sorted)

lemma Post_message_frame:
  "Post_message now f delay ival w = Inr (m, w') \<Longrightarrow>
   running w' = running w \<and> hardStopped w' = hardStopped w \<and> delivered w' = delivered w
   \<and> cancelCurrent w' = cancelCurrent w \<and> env w' = env w"
  by (frule Post_message_cases(3)) simp

lemma sorted_filter_map:
  "sorted (map (f :: 'a \<Rightarrow> real) q) \<Longrightarrow> sorted (map f (filter P q))"
  by (induction q) auto

lemma Cancel_sorted: "sorted (map deliverAt (queue w)) \<Longrightarrow> sorted (map deliverAt (queue (Cancel i w)))"
  by (simp add: Cancel_def Cancel_loop_filter sorted_filter_map)

lemma Cancel_frame:
  "running (Cancel i w) = running w \<and> hardStopped (Cancel i w) = hardStopped w
   \<and> delivered (Cancel i w) = delivered w \<and> cancelCurrent (Cancel i w) = cancelCurrent w
   \<and> env (Cancel i w) = env w"
  by (simp add: Cancel_def)

lemma run_prog_sorted:
  "run_prog now p w = Inr w' \<Longrightarrow> sorted (map deliverAt (queue w)) \<Longrightarrow> sorted (map deliverAt (queue w'))"
proof (induction p arbitrary: w)
  case (Return e)
  then show ?case by auto
next
  case (DoPost f delay ival k)
  from DoPost.prems(1) obtain r w1 where 1: "Post now f delay ival w = Inr (r, w1)"
    and 2: "run_prog now (k r) w1 = Inr w'"
    by (auto split: sum.splits)
  from 1 obtain m where "Post_message now f delay ival w = Inr (m, w1)" by (auto dest: Post_cases)
  then have "sorted (map deliverAt (queue w1))" using DoPost.prems(2) by (rule Post_message_sorted)
  with DoPost.IH [of "k r" w1] 2 show ?case by simp
next
  case (DoCancel i p)
  then show ?case by (simp add: Cancel_sorted)
next
  case (DoCancelSelf p)
  then show ?case by (simp add: CancelSelf_def)
qed

lemma run_prog_frame:
  "run_prog now p w = Inr w' \<Longrightarrow>
   running w' = running w \<and> hardStopped w' = hardStopped w \<and> delivered w' = delivered w"
proof (induction p arbitrary: w)
  case (Return e)
  then show ?case by auto
next
  case (DoPost f delay ival k)
  from DoPost.prems(1) obtain r w1 where 1: "Post now f delay ival w = Inr (r, w1)"
    and 2: "run_prog now (k r) w1 = Inr w'"
    by (auto split: sum.splits)
  from 1 obtain m where "Post_message now f delay ival w = Inr (m, w1)" by (auto dest: Post_cases)
  then have "running w1 = running w \<and> hardStopped w1 = hardStopped w \<and> delivered w1 = delivered w"
    by (simp add: Post_message_frame)
  with DoPost.IH [of "k r" w1] 2 show ?case by simp
next
  case (DoCancel i p)
  from DoCancel.IH [of "Cancel i w"] DoCancel.prems show ?case by (simp add: Cancel_frame)
next
  case (DoCancelSelf p)
  from DoCancelSelf.IH [of "w\<lparr>cancelCurrent := True\<rparr>"] DoCancelSelf.prems
  show ?case by (simp add: CancelSelf_def)
qed

lemma run_prog_cancelCurrent:
  "run_prog now p w = Inr w' \<Longrightarrow> cancelCurrent w' = (cancelCurrent w \<or> calls_CancelSelf now p w)"
proof (induction p arbitrary: w)
  case (Return e)
  then show ?case by auto
next
  case (DoPost f delay ival k)
  from DoPost.prems(1) obtain r w1 where 1: "Post now f delay ival w = Inr (r, w1)"
    and 2: "run_prog now (k r) w1 = Inr w'"
    by (auto split: sum.splits)
  from 1 obtain m where "Post_message now f delay ival w = Inr (m, w1)" by (auto dest: Post_cases)
  then have "cancelCurrent w1 = cancelCurrent w" by (simp add: Post_message_frame)
  with DoPost.IH [of "k r" w1] 1 2 show ?case by simp
next
  case (DoCancel i p)
  from DoCancel.IH [of "Cancel i w"] DoCancel.prems show ?case by (simp add: Cancel_frame)
next
  case (DoCancelSelf p)
  from DoCancelSelf.IH [of "w\<lparr>cancelCurrent := True\<rparr>"] DoCancelSelf.prems
  show ?case by (simp add: CancelSelf_def)
qed

subsection \<open>Delivery and the loop\<close>

lemma begin_delivery_eq:
  "begin_delivery now m w =
     (if deliverAt m = 0
      then (m\<lparr>deliverAt := now (ticks w)\<rparr>,
            w\<lparr>cancelCurrent := False, ticks := Suc (ticks w),
              delivered := delivered w @ [(m, now (ticks w))]\<rparr>)
      else (m, w\<lparr>cancelCurrent := False, delivered := delivered w @ [(m, deliverAt m)]\<rparr>))"
  by (simp add: begin_delivery_def GetCurrentTime_def Let_def)

lemma begin_delivery_frame:
  "begin_delivery now m w = (m1, w1) \<Longrightarrow>
   queue w1 = queue w \<and> running w1 = running w \<and> hardStopped w1 = hardStopped w \<and> env w1 = env w
   \<and> \<not> cancelCurrent w1 \<and> delivered w1 = delivered w @ [(m, deliverAt m1)]
   \<and> id_msg m1 = id_msg m \<and> interval m1 = interval m \<and> func m1 = func m"
  by (auto simp: begin_delivery_eq split: if_splits)

lemma invoke_sorted:
  "invoke now call m1 w = Inr w' \<Longrightarrow> sorted (map deliverAt (queue w)) \<Longrightarrow> sorted (map deliverAt (queue w'))"
  by (auto simp: invoke_def split: option.splits dest: run_prog_sorted)

lemma invoke_frame:
  "invoke now call m1 w = Inr w' \<Longrightarrow>
   running w' = running w \<and> hardStopped w' = hardStopped w \<and> delivered w' = delivered w"
  by (auto simp: invoke_def split: option.splits dest: run_prog_frame)

lemma reinsert_sorted:
  "sorted (map deliverAt (queue w)) \<Longrightarrow> sorted (map deliverAt (queue (reinsert m1 w)))"
  by (simp add: reinsert_def InsertMessageInternal_sorted)

lemma reinsert_frame:
  "running (reinsert m1 w) = running w \<and> hardStopped (reinsert m1 w) = hardStopped w
   \<and> delivered (reinsert m1 w) = delivered w \<and> env (reinsert m1 w) = env w"
  by (simp add: reinsert_def)

lemma deliver_cases:
  assumes "deliver now call m w = Inr w'"
  obtains m1 w1 w2 where "begin_delivery now m w = (m1, w1)" "invoke now call m1 w1 = Inr w2"
    "w' = reinsert m1 w2"
  using assms by (auto simp: deliver_def split: prod.splits sum.splits)

lemma deliver_sorted:
  assumes "deliver now call m w = Inr w'" "sorted (map deliverAt (queue w))"
  shows "sorted (map deliverAt (queue w'))"
proof -
  from assms(1) obtain m1 w1 w2 where 1: "begin_delivery now m w = (m1, w1)"
    and 2: "invoke now call m1 w1 = Inr w2" and 3: "w' = reinsert m1 w2"
    by (rule deliver_cases)
  from 1 assms(2) have "sorted (map deliverAt (queue w1))" by (simp add: begin_delivery_frame)
  with 2 have "sorted (map deliverAt (queue w2))" by (rule invoke_sorted)
  then show ?thesis unfolding 3 by (rule reinsert_sorted)
qed

lemma deliver_frame:
  assumes "deliver now call m w = Inr w'"
  shows "running w' = running w \<and> hardStopped w' = hardStopped w
    \<and> (\<exists>t. delivered w' = delivered w @ [(m, t)])"
proof -
  from assms(1) obtain m1 w1 w2 where 1: "begin_delivery now m w = (m1, w1)"
    and 2: "invoke now call m1 w1 = Inr w2" and 3: "w' = reinsert m1 w2"
    by (rule deliver_cases)
  from begin_delivery_frame [OF 1] invoke_frame [OF 2] show ?thesis
    unfolding 3 by (simp add: reinsert_frame)
qed

lemma deliver_all_sorted:
  "deliver_all now call ms w = Inr w' \<Longrightarrow> sorted (map deliverAt (queue w))
   \<Longrightarrow> sorted (map deliverAt (queue w'))"
proof (induction ms arbitrary: w)
  case Nil
  then show ?case by simp
next
  case (Cons m ms)
  from Cons.prems(1) obtain w1 where 1: "deliver now call m w = Inr w1"
    and 2: "deliver_all now call ms w1 = Inr w'"
    by (auto split: sum.splits)
  from 1 Cons.prems(2) have "sorted (map deliverAt (queue w1))" by (rule deliver_sorted)
  with 2 show ?case by (rule Cons.IH)
qed

lemma deliver_all_frame:
  "deliver_all now call ms w = Inr w' \<Longrightarrow>
   running w' = running w \<and> hardStopped w' = hardStopped w
   \<and> map fst (delivered w') = map fst (delivered w) @ ms"
proof (induction ms arbitrary: w)
  case Nil
  then show ?case by simp
next
  case (Cons m ms)
  from Cons.prems(1) obtain w1 where 1: "deliver now call m w = Inr w1"
    and 2: "deliver_all now call ms w1 = Inr w'"
    by (auto split: sum.splits)
  from deliver_frame [OF 1] Cons.IH [OF 2] show ?case by auto
qed

lemma drain_filter:
  "drain t q = (filter (\<lambda>m. deliverAt m = 0 \<or> deliverAt m \<le> t) q,
                filter (\<lambda>m. \<not> (deliverAt m = 0 \<or> deliverAt m \<le> t)) q)"
  by (induction q) (auto simp: Let_def)

lemma external_op_sorted:
  "external_op now ev w = Inr w' \<Longrightarrow> sorted (map deliverAt (queue w)) \<Longrightarrow> sorted (map deliverAt (queue w'))"
  by (cases ev) (auto simp: Stop_def HardStop_def Cancel_sorted split: sum.splits
      dest!: Post_cases dest: Post_message_sorted)

lemma external_op_frame:
  "external_op now ev w = Inr w' \<Longrightarrow>
   delivered w' = delivered w \<and> env w' = env w \<and> (\<not> running w \<longrightarrow> \<not> running w')
   \<and> (hardStopped w \<longrightarrow> hardStopped w')"
  by (cases ev) (auto simp: Stop_def HardStop_def Cancel_frame split: sum.splits
      dest!: Post_cases dest: Post_message_frame)

lemma external_ops_sorted:
  "external_ops now evs w = Inr w' \<Longrightarrow> sorted (map deliverAt (queue w)) \<Longrightarrow> sorted (map deliverAt (queue w'))"
proof (induction evs arbitrary: w)
  case Nil
  then show ?case by simp
next
  case (Cons ev evs)
  from Cons.prems(1) obtain w1 where 1: "external_op now ev w = Inr w1"
    and 2: "external_ops now evs w1 = Inr w'"
    by (auto split: sum.splits)
  from 1 Cons.prems(2) have "sorted (map deliverAt (queue w1))" by (rule external_op_sorted)
  with 2 show ?case by (rule Cons.IH)
qed

lemma external_ops_frame:
  "external_ops now evs w = Inr w' \<Longrightarrow>
   delivered w' = delivered w \<and> env w' = env w \<and> (\<not> running w \<longrightarrow> \<not> running w')
   \<and> (hardStopped w \<longrightarrow> hardStopped w')"
proof (induction evs arbitrary: w)
  case Nil
  then show ?case by simp
next
  case (Cons ev evs)
  from Cons.prems(1) obtain w1 where 1: "external_op now ev w = Inr w1"
    and 2: "external_ops now evs w1 = Inr w'"
    by (auto split: sum.splits)
  from external_op_frame [OF 1] Cons.IH [OF 2] show ?case by simp
qed


lemma wait_eq:
  "wait now evs w =
     (if queue w = [] \<or> now (ticks w) < deliverAt (hd (queue w))
      then external_ops now evs (w\<lparr>ticks := Suc (ticks w)\<rparr>)
      else Inr (w\<lparr>ticks := Suc (ticks w)\<rparr>))"
  by (simp add: wait_def GetCurrentTime_def Let_def split: list.splits)

lemma wait_sorted:
  "wait now evs w = Inr w' \<Longrightarrow> sorted (map deliverAt (queue w)) \<Longrightarrow> sorted (map deliverAt (queue w'))"
  by (auto simp: wait_eq split: if_splits dest: external_ops_sorted)

lemma wait_frame:
  "wait now evs w = Inr w' \<Longrightarrow>
   delivered w' = delivered w \<and> env w' = env w \<and> (\<not> running w \<longrightarrow> \<not> running w')
   \<and> (hardStopped w \<longrightarrow> hardStopped w')"
  by (auto simp: wait_eq split: if_splits dest: external_ops_frame)

lemma deliver_due_eq:
  "deliver_due now call w =
     (if hardStopped w
      then Break (w\<lparr>ticks := Suc (ticks w), queue := snd (drain (now (ticks w)) (queue w))\<rparr>)
      else (case deliver_all now call (fst (drain (now (ticks w)) (queue w)))
                   (w\<lparr>ticks := Suc (ticks w), queue := snd (drain (now (ticks w)) (queue w))\<rparr>) of
              Inl e \<Rightarrow> Abort e
            | Inr w5 \<Rightarrow> Continue w5))"
  by (simp add: deliver_due_def GetCurrentTime_def Let_def split: prod.splits)

lemma deliver_due_sorted:
  assumes "sorted (map deliverAt (queue w))"
  shows "deliver_due now call w = Break w' \<or> deliver_due now call w = Continue w'
    \<Longrightarrow> sorted (map deliverAt (queue w'))"
proof -
  have r: "sorted (map deliverAt (snd (drain (now (ticks w)) (queue w))))"
    using assms by (simp add: drain_filter sorted_filter_map)
  assume "deliver_due now call w = Break w' \<or> deliver_due now call w = Continue w'"
  then show ?thesis
    using r by (auto simp: deliver_due_eq split: if_splits sum.splits dest!: deliver_all_sorted)
qed

lemma iteration_sorted:
  assumes "sorted (map deliverAt (queue w))"
    and "iteration now call evs w = Break w' \<or> iteration now call evs w = Continue w'"
  shows "sorted (map deliverAt (queue w'))"
proof (cases "wait now evs w")
  case (Inl e)
  then show ?thesis using assms(2) by (simp add: iteration_def)
next
  case (Inr w2)
  then have s: "sorted (map deliverAt (queue w2))" using assms(1) by (rule wait_sorted)
  show ?thesis
  proof (cases "running w2")
    case False
    then show ?thesis using assms(2) Inr s by (auto simp: iteration_def)
  next
    case True
    then have "deliver_due now call w2 = Break w' \<or> deliver_due now call w2 = Continue w'"
      using assms(2) Inr by (simp add: iteration_def)
    with s show ?thesis by (rule deliver_due_sorted)
  qed
qed

lemma Run_sorted:
  "sorted (map deliverAt (queue w)) \<Longrightarrow>
   Run now call sched w = Exited w' \<or> Run now call sched w = Looping w' \<Longrightarrow>
   sorted (map deliverAt (queue w'))"
proof (induction sched arbitrary: w)
  case Nil
  then show ?case by (auto split: if_splits)
next
  case (Cons evs sched)
  show ?case
  proof (cases "running w")
    case False
    then show ?thesis using Cons.prems by auto
  next
    case True
    show ?thesis
    proof (cases "iteration now call evs w")
      case (Break w1)
      then have "w' = w1" using Cons.prems(2) True by simp
      then show ?thesis using iteration_sorted [OF Cons.prems(1), of now call evs w'] Break by simp
    next
      case (Continue w1)
      then have 1: "Run now call sched w1 = Exited w' \<or> Run now call sched w1 = Looping w'"
        using Cons.prems(2) True by simp
      have "sorted (map deliverAt (queue w1))"
        using iteration_sorted [OF Cons.prems(1), of now call evs w1] Continue by simp
      then show ?thesis using 1 by (rule Cons.IH)
    next
      case (Abort e)
      then show ?thesis using Cons.prems(2) True by simp
    qed
  qed
qed

subsection \<open>The order of the queue\<close>

lemma sorted_takeWhile_filter:
  "sorted (map (f :: 'a \<Rightarrow> real) q) \<Longrightarrow>
   takeWhile (\<lambda>x. f x \<le> k) q = filter (\<lambda>x. f x \<le> k) q
   \<and> dropWhile (\<lambda>x. f x \<le> k) q = filter (\<lambda>x. k < f x) q"
proof (induction q)
  case Nil
  then show ?case by simp
next
  case (Cons a q)
  then have IH: "takeWhile (\<lambda>x. f x \<le> k) q = filter (\<lambda>x. f x \<le> k) q"
    "dropWhile (\<lambda>x. f x \<le> k) q = filter (\<lambda>x. k < f x) q" by auto
  show ?case
  proof (cases "f a \<le> k")
    case True
    then show ?thesis using IH by auto
  next
    case False
    then have "\<forall>x \<in> set q. k < f x" using Cons.prems by auto
    then have "filter (\<lambda>x. f x \<le> k) q = []" "filter (\<lambda>x. k < f x) q = q"
      by (auto simp: filter_empty_conv filter_id_conv not_le)
    then show ?thesis using False by auto
  qed
qed

text \<open>
  C2. On a queue sorted by \<^verbatim>\<open>deliverAt\<close>, \<^verbatim>\<open>InsertMessageInternal\<close> puts the message after
  all messages with an equal or earlier \<^verbatim>\<open>deliverAt\<close> and before all with a later one, and
  the queue stays sorted: after the insertion itself, after \<^verbatim>\<open>Post\<close>, after the
  reinsertion of a repeating message, after \<^verbatim>\<open>Cancel\<close>, \<^verbatim>\<open>Stop\<close> and \<^verbatim>\<open>HardStop\<close>, and
  at the end of any run of the loop, whatever the callbacks and the other threads do
  in it.
\<close>

theorem queue_sorted_invariant:
  "sorted (map deliverAt (queue w)) \<longrightarrow>
     InsertMessageInternal m (queue w) =
       filter (\<lambda>x. deliverAt x \<le> deliverAt m) (queue w) @ m #
       filter (\<lambda>x. deliverAt m < deliverAt x) (queue w)
     \<and> sorted (map deliverAt (InsertMessageInternal m (queue w)))
     \<and> (\<forall>r w'. Post now f delay ival w = Inr (r, w') \<longrightarrow> sorted (map deliverAt (queue w')))
     \<and> sorted (map deliverAt (queue (reinsert m w)))
     \<and> sorted (map deliverAt (queue (Cancel i w)))
     \<and> sorted (map deliverAt (queue (Stop w))) \<and> sorted (map deliverAt (queue (HardStop w)))
     \<and> (\<forall>w'. Run now call sched w = Exited w' \<or> Run now call sched w = Looping w'
           \<longrightarrow> sorted (map deliverAt (queue w')))"
proof
  assume s: "sorted (map deliverAt (queue w))"
  have a: "InsertMessageInternal m (queue w) =
       filter (\<lambda>x. deliverAt x \<le> deliverAt m) (queue w) @ m #
       filter (\<lambda>x. deliverAt m < deliverAt x) (queue w)"
    using InsertMessageInternal_position [OF s, of m] sorted_takeWhile_filter [OF s, of "deliverAt m"]
    by simp
  have b: "sorted (map deliverAt (InsertMessageInternal m (queue w)))"
    using s by (rule InsertMessageInternal_sorted)
  have c: "\<forall>r w'. Post now f delay ival w = Inr (r, w') \<longrightarrow> sorted (map deliverAt (queue w'))"
    using s by (auto dest!: Post_cases dest: Post_message_sorted)
  have d: "sorted (map deliverAt (queue (reinsert m w)))"
    using s by (rule reinsert_sorted)
  have e: "\<forall>w'. Run now call sched w = Exited w' \<or> Run now call sched w = Looping w'
           \<longrightarrow> sorted (map deliverAt (queue w'))"
    using Run_sorted [OF s] by blast
  have f: "sorted (map deliverAt (queue (Cancel i w)))"
    using s by (rule Cancel_sorted)
  have g: "sorted (map deliverAt (queue (Stop w))) \<and> sorted (map deliverAt (queue (HardStop w)))"
    by (simp add: Stop_def HardStop_def)
  from a b c d e f g show "InsertMessageInternal m (queue w) =
       filter (\<lambda>x. deliverAt x \<le> deliverAt m) (queue w) @ m #
       filter (\<lambda>x. deliverAt m < deliverAt x) (queue w)
     \<and> sorted (map deliverAt (InsertMessageInternal m (queue w)))
     \<and> (\<forall>r w'. Post now f delay ival w = Inr (r, w') \<longrightarrow> sorted (map deliverAt (queue w')))
     \<and> sorted (map deliverAt (queue (reinsert m w)))
     \<and> sorted (map deliverAt (queue (Cancel i w)))
     \<and> sorted (map deliverAt (queue (Stop w))) \<and> sorted (map deliverAt (queue (HardStop w)))
     \<and> (\<forall>w'. Run now call sched w = Exited w' \<or> Run now call sched w = Looping w'
           \<longrightarrow> sorted (map deliverAt (queue w')))" by blast
qed

theorem queue_sorted_invariant_witness:
  "sorted (map deliverAt [plain 1 5, plain 2 6, plain 3 6, plain 4 8])
   \<and> InsertMessageInternal (plain 9 6) [plain 1 5, plain 2 6, plain 3 6, plain 4 8]
       = [plain 1 5, plain 2 6, plain 3 6, plain 9 6, plain 4 8]
   \<and> sorted (map deliverAt (InsertMessageInternal (plain 9 6) [plain 1 5, plain 2 6, plain 3 6, plain 4 8]))"
  using queue_sorted_invariant [of "started 10\<lparr>queue := [plain 1 5, plain 2 6, plain 3 6, plain 4 8]\<rparr>"
    "plain 9 6" clock_seconds None 0 0 0 idle "[]"]
  by (simp add: plain_def)

subsection \<open>The ids and times that Post gives\<close>

lemma Post_all_ids:
  "Post_all now ps w = Inr (ms, w') \<Longrightarrow>
   map id_msg ms = map (\<lambda>k. lastMessageID w + of_nat k) [0..<length ps]
   \<and> lastMessageID w' = lastMessageID w + of_nat (length ps)"
proof (induction ps arbitrary: w ms w')
  case Nil
  then show ?case by simp
next
  case (Cons p ps)
  obtain f delay ival where p: "p = (f, delay, ival)" by (cases p)
  from Cons.prems obtain m w1 ms' where
    1: "Post_message now f delay ival w = Inr (m, w1)" and
    2: "Post_all now ps w1 = Inr (ms', w')" and 3: "ms = m # ms'"
    by (auto simp: p split: sum.splits)
  from Post_message_cases [OF 1]
  have 4: "id_msg m = lastMessageID w" "lastMessageID w1 = lastMessageID w + 1"
    by auto
  from Cons.IH [OF 2] have 5: "map id_msg ms' = map (\<lambda>k. lastMessageID w1 + of_nat k) [0..<length ps]"
    and 6: "lastMessageID w' = lastMessageID w1 + of_nat (length ps)" by auto
  have "map (\<lambda>k. lastMessageID w + of_nat k) [0..<length (p # ps)]
      = lastMessageID w # map (\<lambda>k. lastMessageID w + of_nat (Suc k)) [0..<length ps]"
    by (simp add: upt_conv_Cons map_Suc_upt [symmetric] del: upt_Suc)
  then show ?case using 3 4 5 6 by (simp add: add.assoc add.commute)
qed





subsection \<open>Stopping\<close>

lemma external_ops_ok:
  "list_all ext_ok evs \<Longrightarrow> \<exists>w'. external_ops now evs w = Inr w'"
proof (induction evs arbitrary: w)
  case Nil
  then show ?case by simp
next
  case (Cons ev evs)
  then have "ext_ok ev" by simp
  then obtain w1 where 1: "external_op now ev w = Inr w1"
    by (cases ev) (auto simp: Post_def Post_message_Inr)
  from Cons have "\<exists>w'. external_ops now evs w1 = Inr w'" by simp
  with 1 show ?case by simp
qed

lemma wait_ok: "list_all ext_ok evs \<Longrightarrow> \<exists>w'. wait now evs w = Inr w'"
  by (simp add: wait_eq external_ops_ok)

lemma external_ops_append:
  "external_ops now evs w = Inr w1 \<Longrightarrow> external_ops now (evs @ evs') w = external_ops now evs' w1"
  by (induction evs arbitrary: w) (auto split: sum.splits)

text \<open>
  C8. After \<^verbatim>\<open>Stop\<close>, and after \<^verbatim>\<open>HardStop\<close>, \<open>running\<close> is false and the queue is empty,
  whatever was in it, and \<^verbatim>\<open>Run\<close> leaves its loop at once. A worker that finds
  \<open>running\<close> false when it comes out of its wait leaves the loop in the world the wait
  has left: nothing is taken from the queue, nothing is delivered, no callback has
  run. That is so in particular when \<^verbatim>\<open>Stop\<close> or \<^verbatim>\<open>HardStop\<close> is the last call made by
  another thread during the wait.
\<close>

theorem Stop_drops_queue_and_ends_loop:
  "running (Stop w) = False \<and> queue (Stop w) = []
   \<and> running (HardStop w) = False \<and> queue (HardStop w) = []
   \<and> Run now call sched (Stop w) = Exited (Stop w)
   \<and> Run now call sched (HardStop w) = Exited (HardStop w)
   \<and> (running w \<and> wait now evs w = Inr w2 \<and> \<not> running w2 \<longrightarrow>
        iteration now call evs w = Break w2 \<and> Run now call (evs # sched) w = Exited w2
        \<and> delivered w2 = delivered w \<and> env w2 = env w)
   \<and> (running w \<and> (queue w = [] \<or> now (ticks w) < deliverAt (hd (queue w)))
        \<and> external_ops now evs (w\<lparr>ticks := Suc (ticks w)\<rparr>) = Inr w1 \<longrightarrow>
        Run now call ((evs @ [ExtStop]) # sched) w = Exited (Stop w1)
        \<and> Run now call ((evs @ [ExtHardStop]) # sched) w = Exited (HardStop w1)
        \<and> delivered w1 = delivered w \<and> env w1 = env w)"
proof -
  have a: "running (Stop w) = False \<and> queue (Stop w) = []
     \<and> running (HardStop w) = False \<and> queue (HardStop w) = []"
    by (simp add: Stop_def HardStop_def)
  have b: "Run now call sched (Stop w) = Exited (Stop w)"
    using a by (cases sched) simp_all
  have c: "Run now call sched (HardStop w) = Exited (HardStop w)"
    using a by (cases sched) simp_all
  have d: "running w \<and> wait now evs w = Inr w2 \<and> \<not> running w2 \<longrightarrow>
        iteration now call evs w = Break w2 \<and> Run now call (evs # sched) w = Exited w2
        \<and> delivered w2 = delivered w \<and> env w2 = env w"
    by (auto simp: iteration_def dest: wait_frame)
  have e: "running w \<and> (queue w = [] \<or> now (ticks w) < deliverAt (hd (queue w)))
        \<and> external_ops now evs (w\<lparr>ticks := Suc (ticks w)\<rparr>) = Inr w1 \<longrightarrow>
        Run now call ((evs @ [ExtStop]) # sched) w = Exited (Stop w1)
        \<and> Run now call ((evs @ [ExtHardStop]) # sched) w = Exited (HardStop w1)
        \<and> delivered w1 = delivered w \<and> env w1 = env w"
  proof
    assume h: "running w \<and> (queue w = [] \<or> now (ticks w) < deliverAt (hd (queue w)))
        \<and> external_ops now evs (w\<lparr>ticks := Suc (ticks w)\<rparr>) = Inr w1"
    then have 1: "wait now (evs @ [ExtStop]) w = Inr (Stop w1)"
      and 2: "wait now (evs @ [ExtHardStop]) w = Inr (HardStop w1)"
      by (simp_all add: wait_eq external_ops_append)
    from h have 3: "delivered w1 = delivered w \<and> env w1 = env w"
      by (auto dest: external_ops_frame)
    have 4: "\<not> running (Stop w1)" "\<not> running (HardStop w1)"
      by (simp_all add: Stop_def HardStop_def)
    from h 1 2 3 4 show "Run now call ((evs @ [ExtStop]) # sched) w = Exited (Stop w1)
        \<and> Run now call ((evs @ [ExtHardStop]) # sched) w = Exited (HardStop w1)
        \<and> delivered w1 = delivered w \<and> env w1 = env w"
      by (simp add: iteration_def)
  qed
  from a b c d e show ?thesis by blast
qed

theorem Stop_drops_queue_and_ends_loop_witness:
  "running (started 1\<lparr>queue := [plain 1 100, plain 2 200]\<rparr>)
   \<and> wait clock_seconds [ExtStop] (started 1\<lparr>queue := [plain 1 100, plain 2 200]\<rparr>)
       = Inr (started 1\<lparr>ticks := 1, running := False\<rparr>)
   \<and> Run clock_seconds idle [[ExtStop], []] (started 1\<lparr>queue := [plain 1 100, plain 2 200]\<rparr>)
       = Exited (started 1\<lparr>ticks := 1, running := False\<rparr>)
   \<and> clock_seconds 0 < deliverAt (hd [plain 1 100, plain 2 200])
   \<and> Run clock_seconds idle [[ExtCancel 1] @ [ExtHardStop], []]
        (started 1\<lparr>queue := [plain 1 100, plain 2 200]\<rparr>)
       = Exited (started 1\<lparr>ticks := 1, running := False, hardStopped := True\<rparr>)"
  using Stop_drops_queue_and_ends_loop [where w = "started 1\<lparr>queue := [plain 1 100, plain 2 200]\<rparr>"
      and now = clock_seconds and call = idle and sched = "[[]]" and evs = "[ExtStop]"
      and ?w2.0 = "started 1\<lparr>ticks := 1, running := False\<rparr>"
      and ?w1.0 = "started 1\<lparr>ticks := 1, running := False\<rparr>"]
    Stop_drops_queue_and_ends_loop [where w = "started 1\<lparr>queue := [plain 1 100, plain 2 200]\<rparr>"
      and now = clock_seconds and call = idle and sched = "[[]]" and evs = "[ExtCancel 1]"
      and ?w1.0 = "started 1\<lparr>ticks := 1, queue := [plain 2 200]\<rparr>"]
  by (simp add: wait_eq started_def plain_def clock_seconds_def Stop_def HardStop_def Cancel_def)

lemma external_ops_HardStop:
  "external_ops now evs w = Inr w' \<Longrightarrow> ExtHardStop \<in> set evs \<Longrightarrow> hardStopped w' \<and> \<not> running w'"
proof (induction evs arbitrary: w)
  case Nil
  then show ?case by simp
next
  case (Cons ev evs)
  from Cons.prems(1) obtain w1 where 1: "external_op now ev w = Inr w1"
    and 2: "external_ops now evs w1 = Inr w'"
    by (auto split: sum.splits)
  show ?case
  proof (cases "ev = ExtHardStop")
    case True
    with 1 have "hardStopped w1 \<and> \<not> running w1" by (auto simp: HardStop_def)
    with external_ops_frame [OF 2] show ?thesis by simp
  next
    case False
    with Cons.prems(2) have "ExtHardStop \<in> set evs" by simp
    with 2 show ?thesis by (rule Cons.IH)
  qed
qed

text \<open>
  C7. \<^verbatim>\<open>HardStop\<close> sets \<open>hardStopped\<close>. Once it is set, \<^verbatim>\<open>Run\<close> leaves its loop within
  the first pass, whatever other threads call meanwhile (within the precondition of
  \<^verbatim>\<open>Post\<close>), with the flag still set, with nothing delivered and no callback run. In
  particular the pass that has come as far as taking the due messages from the queue
  ends in \<^verbatim>\<open>break\<close>: the due messages are gone from the queue, and nothing else has
  happened. And when another thread calls \<^verbatim>\<open>HardStop\<close> while the worker waits, the run
  ends with that pass, again with nothing delivered and no callback run.
\<close>

theorem HardStop_no_callback:
  "hardStopped (HardStop w)
   \<and> (hardStopped w \<and> list_all ext_ok evs \<longrightarrow>
        (\<exists>w'. Run now call (evs # sched) w = Exited w' \<and> hardStopped w'
           \<and> delivered w' = delivered w \<and> env w' = env w))
   \<and> (hardStopped w \<longrightarrow>
        deliver_due now call w =
          Break (w\<lparr>ticks := Suc (ticks w), queue := snd (drain (now (ticks w)) (queue w))\<rparr>))
   \<and> (running w \<and> (queue w = [] \<or> now (ticks w) < deliverAt (hd (queue w)))
        \<and> ExtHardStop \<in> set evs \<and> list_all ext_ok evs \<longrightarrow>
        (\<exists>w'. Run now call (evs # sched) w = Exited w' \<and> hardStopped w'
           \<and> delivered w' = delivered w \<and> env w' = env w))"
proof -
  have a: "hardStopped (HardStop w)" by (simp add: HardStop_def)
  have c: "hardStopped w \<longrightarrow>
        deliver_due now call w =
          Break (w\<lparr>ticks := Suc (ticks w), queue := snd (drain (now (ticks w)) (queue w))\<rparr>)"
    by (simp add: deliver_due_eq)
  have b: "hardStopped w \<and> list_all ext_ok evs \<longrightarrow>
        (\<exists>w'. Run now call (evs # sched) w = Exited w' \<and> hardStopped w'
           \<and> delivered w' = delivered w \<and> env w' = env w)"
  proof
    assume h: "hardStopped w \<and> list_all ext_ok evs"
    show "\<exists>w'. Run now call (evs # sched) w = Exited w' \<and> hardStopped w'
           \<and> delivered w' = delivered w \<and> env w' = env w"
    proof (cases "running w")
      case False
      with h show ?thesis by simp
    next
      case True
      from h obtain w2 where w2: "wait now evs w = Inr w2" using wait_ok by blast
      with h have f: "hardStopped w2" "delivered w2 = delivered w" "env w2 = env w"
        by (auto dest: wait_frame)
      show ?thesis
      proof (cases "running w2")
        case False
        with True w2 f show ?thesis by (simp add: iteration_def)
      next
        case r: True
        with True w2 f show ?thesis by (simp add: iteration_def deliver_due_eq)
      qed
    qed
  qed
  have d: "running w \<and> (queue w = [] \<or> now (ticks w) < deliverAt (hd (queue w)))
        \<and> ExtHardStop \<in> set evs \<and> list_all ext_ok evs \<longrightarrow>
        (\<exists>w'. Run now call (evs # sched) w = Exited w' \<and> hardStopped w'
           \<and> delivered w' = delivered w \<and> env w' = env w)"
  proof
    assume h: "running w \<and> (queue w = [] \<or> now (ticks w) < deliverAt (hd (queue w)))
        \<and> ExtHardStop \<in> set evs \<and> list_all ext_ok evs"
    then obtain w2 where w2: "external_ops now evs (w\<lparr>ticks := Suc (ticks w)\<rparr>) = Inr w2"
      using external_ops_ok by blast
    with h have wt: "wait now evs w = Inr w2" by (simp add: wait_eq)
    from external_ops_HardStop [OF w2] h have s: "hardStopped w2" "\<not> running w2" by simp_all
    from external_ops_frame [OF w2] have f: "delivered w2 = delivered w" "env w2 = env w" by simp_all
    from h wt s f show "\<exists>w'. Run now call (evs # sched) w = Exited w' \<and> hardStopped w'
           \<and> delivered w' = delivered w \<and> env w' = env w"
      by (simp add: iteration_def)
  qed
  from a b c d show ?thesis by blast
qed

theorem HardStop_no_callback_witness:
  "hardStopped (started 1\<lparr>hardStopped := True, queue := [\<lparr>id_msg = 1, deliverAt = 0, interval = 1, func = Some 0\<rparr>]\<rparr>)
   \<and> list_all ext_ok [ExtPost (Some 0) 1 0]
   \<and> Run clock_seconds idle [[ExtPost (Some 0) 1 0], []]
        (started 1\<lparr>hardStopped := True, queue := [\<lparr>id_msg = 1, deliverAt = 0, interval = 1, func = Some 0\<rparr>]\<rparr>)
      = Exited (started 1\<lparr>hardStopped := True, ticks := 2\<rparr>)
   \<and> running (started 1\<lparr>queue := [\<lparr>id_msg = 1, deliverAt = 4, interval = 1, func = Some 0\<rparr>]\<rparr>)
   \<and> clock_seconds 0 < deliverAt (hd [\<lparr>id_msg = 1, deliverAt = 4, interval = 1, func = Some (0::nat)\<rparr>])
   \<and> list_all ext_ok [ExtHardStop :: nat ext]
   \<and> Run clock_seconds idle [[ExtHardStop], []]
        (started 1\<lparr>queue := [\<lparr>id_msg = 1, deliverAt = 4, interval = 1, func = Some 0\<rparr>]\<rparr>)
      = Exited (started 1\<lparr>hardStopped := True, running := False, ticks := 1\<rparr>)"
  using HardStop_no_callback [where w = "started 1\<lparr>hardStopped := True, queue := [\<lparr>id_msg = 1, deliverAt = 0, interval = 1, func = Some 0\<rparr>]\<rparr>"
      and evs = "[ExtPost (Some 0) 1 0]" and now = clock_seconds and call = idle and sched = "[[]]"]
    HardStop_no_callback [where w = "started 1\<lparr>queue := [\<lparr>id_msg = 1, deliverAt = 4, interval = 1, func = Some 0\<rparr>]\<rparr>"
      and evs = "[ExtHardStop]" and now = clock_seconds and call = idle and sched = "[[]]"]
  by (simp add: iteration_def wait_eq deliver_due_eq started_def clock_seconds_def HardStop_def)

subsection \<open>CancelSelf\<close>

lemma begin_delivery_cancelCurrent:
  "begin_delivery now m (w\<lparr>cancelCurrent := b\<rparr>) = begin_delivery now m w"
  by (simp add: begin_delivery_eq)


lemma iteration_idle:
  "queue w = [] \<Longrightarrow> running w \<Longrightarrow> \<not> hardStopped w \<Longrightarrow>
   iteration now call [] w = Continue (w\<lparr>ticks := Suc (Suc (ticks w))\<rparr>)"
  by (simp add: iteration_def wait_eq deliver_due_eq)

lemma Run_idle:
  "queue w = [] \<Longrightarrow> running w \<Longrightarrow> \<not> hardStopped w \<Longrightarrow>
   Run now call (replicate n []) w = Looping (w\<lparr>ticks := ticks w + 2 * n\<rparr>)"
proof (induction n arbitrary: w)
  case 0
  then show ?case by simp
next
  case (Suc n)
  from Suc.prems have "Run now call (replicate (Suc n) []) w
      = Run now call (replicate n []) (w\<lparr>ticks := Suc (Suc (ticks w))\<rparr>)"
    by (simp add: iteration_idle)
  also have "\<dots> = Looping (w\<lparr>ticks := Suc (Suc (ticks w))\<rparr>\<lparr>ticks := ticks (w\<lparr>ticks := Suc (Suc (ticks w))\<rparr>) + 2 * n\<rparr>)"
    using Suc.prems by (intro Suc.IH) simp_all
  finally show ?case by simp
qed

lemma third_run:
  "Run clock_seconds cancel_on_third (replicate (3 + n) [])
     (started 2\<lparr>ticks := 1, queue := [\<lparr>id_msg = 1, deliverAt = 0, interval = 1 / 100, func = Some 0\<rparr>]\<rparr>)
   = Looping (started 2\<lparr>ticks := 8 + 2 * n, env := 3, cancelCurrent := True,
        delivered :=
          [(\<lparr>id_msg = 1, deliverAt = 0, interval = 1 / 100, func = Some 0\<rparr>, 3),
           (\<lparr>id_msg = 1, deliverAt = add_double 3 (1 / 100), interval = 1 / 100, func = Some 0\<rparr>,
            add_double 3 (1 / 100)),
           (\<lparr>id_msg = 1, deliverAt = add_double (add_double 3 (1 / 100)) (1 / 100), interval = 1 / 100,
               func = Some 0\<rparr>,
            add_double (add_double 3 (1 / 100)) (1 / 100))]\<rparr>)"
proof -
  define d1 where "d1 = add_double 3 (1 / 100)"
  define d2 where "d2 = add_double d1 (1 / 100)"
  have b1: "3 \<le> d1" "d1 \<le> 31 / 10"
    using add_double_near [of 3 "1 / 100"] unfolding d1_def by simp_all
  then have "2 \<le> d1 + 1 / 100" "d1 + 1 / 100 < 4" by simp_all
  from add_double_near [OF this]
  have n2: "d1 + 1 / 100 - 1 / 2 ^ 52 \<le> d2" "d2 \<le> d1 + 1 / 100 + 1 / 2 ^ 52"
    unfolding d2_def by blast+
  have small: "(1::real) / 2 ^ 52 \<le> 1 / 100" by simp
  from n2 b1 small have b2: "3 \<le> d2" "d2 \<le> 32 / 10" by linarith+
  have r: "replicate (3 + n) [] = [] # [] # [] # replicate n ([] :: nat ext list)"
    by (simp add: numeral_3_eq_3)
  let ?w3 = "started 2\<lparr>ticks := 8, env := 3, cancelCurrent := True,
        delivered :=
          [(\<lparr>id_msg = 1, deliverAt = 0, interval = 1 / 100, func = Some 0\<rparr>, 3),
           (\<lparr>id_msg = 1, deliverAt = d1, interval = 1 / 100, func = Some 0\<rparr>, d1),
           (\<lparr>id_msg = 1, deliverAt = d2, interval = 1 / 100, func = Some 0\<rparr>, d2)]\<rparr>"
  have "Run clock_seconds cancel_on_third (replicate (3 + n) [])
     (started 2\<lparr>ticks := 1, queue := [\<lparr>id_msg = 1, deliverAt = 0, interval = 1 / 100, func = Some 0\<rparr>]\<rparr>)
     = Run clock_seconds cancel_on_third (replicate n []) ?w3"
    unfolding r using b1 b2
    apply (simp add: iteration_def wait_eq deliver_due_eq deliver_def begin_delivery_eq invoke_def
        reinsert_def InsertMessageInternal_def cancel_on_third_def CancelSelf_def
        started_def clock_seconds_def Let_def d1_def [symmetric] d2_def [symmetric])
    apply (simp add: eval_nat_numeral)
    done
  also have "\<dots> = Looping (?w3\<lparr>ticks := ticks ?w3 + 2 * n\<rparr>)"
    by (rule Run_idle) (simp_all add: started_def)
  finally show ?thesis by (simp add: started_def d1_def d2_def)
qed

lemma third_pass:
  assumes r: "running w" "\<not> hardStopped w" and l: "length (delivered w) = env w"
    and q: "env w < 3 \<and> (\<exists>d. queue w = [\<lparr>id_msg = 1, deliverAt = d, interval = 1 / 100, func = Some 0\<rparr>])
         \<or> env w = 3 \<and> queue w = []"
  shows "\<exists>w'. iteration now cancel_on_third [] w = Continue w'
    \<and> running w' \<and> \<not> hardStopped w' \<and> length (delivered w') = env w'
    \<and> (env w' < 3 \<and> (\<exists>d. queue w' = [\<lparr>id_msg = 1, deliverAt = d, interval = 1 / 100, func = Some 0\<rparr>])
         \<or> env w' = 3 \<and> queue w' = [])"
proof (cases "queue w = []")
  case True
  with q have "env w = 3" by auto
  with True r l show ?thesis by (simp add: iteration_idle)
next
  case False
  with q obtain d where e: "env w < 3"
    and d: "queue w = [\<lparr>id_msg = 1, deliverAt = d, interval = 1 / 100, func = Some 0\<rparr>]" by auto
  show ?thesis
  proof (cases "d = 0 \<or> d \<le> now (Suc (ticks w))")
    case False
    with r l e d show ?thesis
      by (simp add: iteration_def wait_eq deliver_due_eq)
  next
    case due: True
    show ?thesis
    proof (cases "Suc (env w) = 3")
      case True
      with r l e d due show ?thesis
        by (auto simp: iteration_def wait_eq deliver_due_eq deliver_def begin_delivery_eq invoke_def
            reinsert_def cancel_on_third_def CancelSelf_def)
    next
      case False
      with e have "Suc (env w) < 3" by simp
      with r l e d due False show ?thesis
        by (auto simp: iteration_def wait_eq deliver_due_eq deliver_def begin_delivery_eq invoke_def
            reinsert_def cancel_on_third_def InsertMessageInternal_def)
    qed
  qed
qed

lemma third_at_most:
  "running w \<Longrightarrow> \<not> hardStopped w \<Longrightarrow> length (delivered w) = env w \<Longrightarrow>
   env w < 3 \<and> (\<exists>d. queue w = [\<lparr>id_msg = 1, deliverAt = d, interval = 1 / 100, func = Some 0\<rparr>])
     \<or> env w = 3 \<and> queue w = [] \<Longrightarrow>
   \<exists>w'. Run now cancel_on_third (replicate n []) w = Looping w'
     \<and> length (delivered w') = env w' \<and> env w' \<le> 3"
proof (induction n arbitrary: w)
  case 0
  then show ?case by auto
next
  case (Suc n)
  from third_pass [OF Suc.prems(1) Suc.prems(2) Suc.prems(3) Suc.prems(4), of now]
  obtain w1 where 1: "iteration now cancel_on_third [] w = Continue w1"
    and 2: "running w1" "\<not> hardStopped w1" "length (delivered w1) = env w1"
    and 3: "env w1 < 3 \<and> (\<exists>d. queue w1 = [\<lparr>id_msg = 1, deliverAt = d, interval = 1 / 100, func = Some 0\<rparr>])
         \<or> env w1 = 3 \<and> queue w1 = []" by blast
  from Suc.IH [OF 2 3] obtain w' where "Run now cancel_on_third (replicate n []) w1 = Looping w'"
     "length (delivered w') = env w'" "env w' \<le> 3" by blast
  with 1 Suc.prems(1) show ?case by simp
qed

text \<open>
  C5. The delivery of a message starts by clearing \<open>cancelCurrent\<close>: the callback
  starts with the flag cleared, and what the delivery does is the same whatever the
  flag was before. If the callback gets to call \<^verbatim>\<open>CancelSelf\<close>, the flag is set when it
  returns and the delivery ends in the world the callback has left: the message is not
  put back into the queue, whatever its interval. Hence the run of a message posted
  with interval 0.01 whose callback calls \<^verbatim>\<open>CancelSelf\<close> in its third call (on a clock
  that advances by a second per reading, with no other thread calling): after three
  passes and any number \<open>n\<close> of further ones the callback has run three times, the
  message has been delivered three times and the queue is empty. And on any clock
  at all, after any number of passes, the callback has run as often as the message
  has been delivered, and at most three times.
\<close>

theorem CancelSelf_stops_repetition:
  "begin_delivery now m (w\<lparr>cancelCurrent := b\<rparr>) = begin_delivery now m w
   \<and> \<not> cancelCurrent (snd (begin_delivery now m w))
   \<and> deliver now call m (w\<lparr>cancelCurrent := b\<rparr>) = deliver now call m w
   \<and> (begin_delivery now m w = (m1, w1) \<and> func m = Some f
        \<and> run_prog now (call f (env w1)) w1 = Inr w2 \<and> calls_CancelSelf now (call f (env w1)) w1
      \<longrightarrow> cancelCurrent w2 \<and> deliver now call m w = Inr w2)
   \<and> (case Post clock_seconds (Some 0) 0 (1 / 100) (started 1) of
         Inl e \<Rightarrow> False
       | Inr (i, w0) \<Rightarrow>
           (\<exists>w'. Run clock_seconds cancel_on_third (replicate (3 + n) []) w0 = Looping w'
              \<and> env w' = 3 \<and> map (id_msg \<circ> fst) (delivered w') = [i, i, i] \<and> queue w' = []))
   \<and> (case Post now (Some 0) 0 (1 / 100) (started 1) of
         Inl e \<Rightarrow> False
       | Inr (i, w0) \<Rightarrow>
           (\<exists>w'. Run now cancel_on_third (replicate n []) w0 = Looping w'
              \<and> length (delivered w') = env w' \<and> env w' \<le> 3))"
proof -
  have a: "begin_delivery now m (w\<lparr>cancelCurrent := b\<rparr>) = begin_delivery now m w"
    by (rule begin_delivery_cancelCurrent)
  have b: "\<not> cancelCurrent (snd (begin_delivery now m w))"
    by (simp add: begin_delivery_eq)
  have c: "deliver now call m (w\<lparr>cancelCurrent := b\<rparr>) = deliver now call m w"
    by (simp add: deliver_def a)
  have d: "begin_delivery now m w = (m1, w1) \<and> func m = Some f
        \<and> run_prog now (call f (env w1)) w1 = Inr w2 \<and> calls_CancelSelf now (call f (env w1)) w1
      \<longrightarrow> cancelCurrent w2 \<and> deliver now call m w = Inr w2"
  proof
    assume h: "begin_delivery now m w = (m1, w1) \<and> func m = Some f
        \<and> run_prog now (call f (env w1)) w1 = Inr w2 \<and> calls_CancelSelf now (call f (env w1)) w1"
    then have f: "func m1 = Some f" by (auto dest: begin_delivery_frame)
    with h have i: "invoke now call m1 w1 = Inr w2" by (simp add: invoke_def)
    from h have cc: "cancelCurrent w2" by (auto dest: run_prog_cancelCurrent)
    then have "reinsert m1 w2 = w2" by (simp add: reinsert_def)
    with h i cc show "cancelCurrent w2 \<and> deliver now call m w = Inr w2" by (simp add: deliver_def)
  qed
  have p: "Post clock_seconds (Some 0) 0 (1 / 100) (started 1)
     = Inr (1, started 2\<lparr>ticks := 1, queue := [\<lparr>id_msg = 1, deliverAt = 0, interval = 1 / 100, func = Some 0\<rparr>]\<rparr>)"
    by (simp add: Post_def Post_message_Inr started_def InsertMessageInternal_def)
  have e: "case Post clock_seconds (Some 0) 0 (1 / 100) (started 1) of
         Inl e \<Rightarrow> False
       | Inr (i, w0) \<Rightarrow>
           (\<exists>w'. Run clock_seconds cancel_on_third (replicate (3 + n) []) w0 = Looping w'
              \<and> env w' = 3 \<and> map (id_msg \<circ> fst) (delivered w') = [i, i, i] \<and> queue w' = [])"
  proof -
    have "\<exists>w'. Run clock_seconds cancel_on_third (replicate (3 + n) [])
          (started 2\<lparr>ticks := 1, queue := [\<lparr>id_msg = 1, deliverAt = 0, interval = 1 / 100, func = Some 0\<rparr>]\<rparr>)
          = Looping w'
        \<and> env w' = 3 \<and> map (id_msg \<circ> fst) (delivered w') = [1, 1, 1] \<and> queue w' = []"
      unfolding third_run by (simp add: started_def)
    then show ?thesis unfolding p by simp
  qed
  have p': "Post now (Some 0) 0 (1 / 100) (started 1)
     = Inr (1, started 2\<lparr>ticks := 1, queue := [\<lparr>id_msg = 1, deliverAt = 0, interval = 1 / 100, func = Some 0\<rparr>]\<rparr>)"
    by (simp add: Post_def Post_message_Inr started_def InsertMessageInternal_def)
  have f: "case Post now (Some 0) 0 (1 / 100) (started 1) of
         Inl e \<Rightarrow> False
       | Inr (i, w0) \<Rightarrow>
           (\<exists>w'. Run now cancel_on_third (replicate n []) w0 = Looping w'
              \<and> length (delivered w') = env w' \<and> env w' \<le> 3)"
  proof -
    have "\<exists>w'. Run now cancel_on_third (replicate n [])
          (started 2\<lparr>ticks := 1, queue := [\<lparr>id_msg = 1, deliverAt = 0, interval = 1 / 100, func = Some 0\<rparr>]\<rparr>)
          = Looping w'
        \<and> length (delivered w') = env w' \<and> env w' \<le> 3"
      by (rule third_at_most) (simp_all add: started_def)
    then show ?thesis unfolding p' by simp
  qed
  from a b c d e f show ?thesis by blast
qed

theorem CancelSelf_stops_repetition_witness:
  "begin_delivery clock_seconds \<lparr>id_msg = 1, deliverAt = 5, interval = 1 / 100, func = Some 0\<rparr>
      (started 2\<lparr>env := 2\<rparr>)
     = (\<lparr>id_msg = 1, deliverAt = 5, interval = 1 / 100, func = Some 0\<rparr>,
        started 2\<lparr>env := 2, delivered := [(\<lparr>id_msg = 1, deliverAt = 5, interval = 1 / 100, func = Some 0\<rparr>, 5)]\<rparr>)
   \<and> calls_CancelSelf clock_seconds (cancel_on_third 0 2)
        (started 2\<lparr>env := 2, delivered := [(\<lparr>id_msg = 1, deliverAt = 5, interval = 1 / 100, func = Some 0\<rparr>, 5)]\<rparr>)
   \<and> deliver clock_seconds cancel_on_third \<lparr>id_msg = 1, deliverAt = 5, interval = 1 / 100, func = Some 0\<rparr>
        (started 2\<lparr>env := 2\<rparr>)
     = Inr (started 2\<lparr>env := 3, cancelCurrent := True,
         delivered := [(\<lparr>id_msg = 1, deliverAt = 5, interval = 1 / 100, func = Some 0\<rparr>, 5)]\<rparr>)"
  using CancelSelf_stops_repetition [where now = clock_seconds and call = cancel_on_third
      and m = "\<lparr>id_msg = 1, deliverAt = 5, interval = 1 / 100, func = Some 0\<rparr>"
      and w = "started 2\<lparr>env := 2\<rparr>" and f = 0
      and ?m1.0 = "\<lparr>id_msg = 1, deliverAt = 5, interval = 1 / 100, func = Some 0\<rparr>"
      and ?w1.0 = "started 2\<lparr>env := 2, delivered := [(\<lparr>id_msg = 1, deliverAt = 5, interval = 1 / 100, func = Some 0\<rparr>, 5)]\<rparr>"
      and ?w2.0 = "started 2\<lparr>env := 3, cancelCurrent := True,
         delivered := [(\<lparr>id_msg = 1, deliverAt = 5, interval = 1 / 100, func = Some 0\<rparr>, 5)]\<rparr>"]
  by (simp add: begin_delivery_eq started_def cancel_on_third_def CancelSelf_def eval_nat_numeral)

subsection \<open>Repetition\<close>

lemma InsertMessageInternal_loop_set:
  "q \<noteq> [] \<Longrightarrow> set (InsertMessageInternal_loop m q) = insert m (set q)"
  by (induction m q rule: InsertMessageInternal_loop.induct) auto

lemma InsertMessageInternal_set: "set (InsertMessageInternal m q) = insert m (set q)"
  by (cases q) (simp_all add: InsertMessageInternal_def InsertMessageInternal_loop_set
      del: InsertMessageInternal_loop.simps)






subsection \<open>Cancel with the id of the message being delivered\<close>






























lemma Post_all_wraps:
  assumes "Post_all now ps w = Inr (ms, w')" "length ps = 2 ^ 32"
  shows "lastMessageID w' = lastMessageID w"
proof -
  from Post_all_ids [OF assms(1)] have "lastMessageID w' = lastMessageID w + of_nat (length ps)"
    by simp
  moreover have "(of_nat (2 ^ 32) :: msgid) = 0" by simp
  ultimately show ?thesis by (simp add: assms(2))
qed





subsection \<open>The order of delivery\<close>

lemma InsertMessageInternal_filter_eq:
  assumes s: "sorted (map deliverAt q)"
  shows "filter (\<lambda>x. deliverAt x = k) (InsertMessageInternal m q)
    = filter (\<lambda>x. deliverAt x = k) q @ filter (\<lambda>x. deliverAt x = k) [m]"
proof -
  let ?lo = "filter (\<lambda>x. deliverAt x \<le> deliverAt m) q"
  let ?hi = "filter (\<lambda>x. deliverAt m < deliverAt x) q"
  have pos: "InsertMessageInternal m q = ?lo @ m # ?hi"
    using InsertMessageInternal_position [OF s, of m] sorted_takeWhile_filter [OF s, of "deliverAt m"]
    by simp
  have split: "filter (\<lambda>x. deliverAt x = k) q
      = filter (\<lambda>x. deliverAt x = k) ?lo @ filter (\<lambda>x. deliverAt x = k) ?hi"
  proof -
    have "q = takeWhile (\<lambda>x. deliverAt x \<le> deliverAt m) q @ dropWhile (\<lambda>x. deliverAt x \<le> deliverAt m) q"
      by simp
    then have "q = ?lo @ ?hi" using sorted_takeWhile_filter [OF s, of "deliverAt m"] by simp
    then have "filter (\<lambda>x. deliverAt x = k) q = filter (\<lambda>x. deliverAt x = k) (?lo @ ?hi)" by simp
    then show ?thesis by simp
  qed
  show ?thesis
  proof (cases "k \<le> deliverAt m")
    case True
    then have "filter (\<lambda>x. deliverAt x = k) ?hi = []" by (auto simp: filter_empty_conv)
    then show ?thesis unfolding pos using split by simp
  next
    case False
    then have "filter (\<lambda>x. deliverAt x = k) ?lo = []" by (auto simp: filter_empty_conv)
    then show ?thesis unfolding pos using split False by auto
  qed
qed

lemma Post_all_stable:
  "Post_all now ps w = Inr (ms, w') \<Longrightarrow> sorted (map deliverAt (queue w)) \<Longrightarrow>
   sorted (map deliverAt (queue w'))
   \<and> (\<forall>k. filter (\<lambda>x. deliverAt x = k) (queue w')
         = filter (\<lambda>x. deliverAt x = k) (queue w) @ filter (\<lambda>x. deliverAt x = k) ms)
   \<and> running w' = running w \<and> hardStopped w' = hardStopped w \<and> delivered w' = delivered w"
proof (induction ps arbitrary: w ms)
  case Nil
  then show ?case by simp
next
  case (Cons p ps)
  obtain f delay ival where p: "p = (f, delay, ival)" by (cases p)
  from Cons.prems(1) obtain m w1 ms' where
    1: "Post_message now f delay ival w = Inr (m, w1)" and
    2: "Post_all now ps w1 = Inr (ms', w')" and 3: "ms = m # ms'"
    by (auto simp: p split: sum.splits)
  from Post_message_cases(3) [OF 1] have q1: "queue w1 = InsertMessageInternal m (queue w)" by simp
  have s1: "sorted (map deliverAt (queue w1))" using 1 Cons.prems(2) by (rule Post_message_sorted)
  have f1: "\<And>k. filter (\<lambda>x. deliverAt x = k) (queue w1)
      = filter (\<lambda>x. deliverAt x = k) (queue w) @ filter (\<lambda>x. deliverAt x = k) [m]"
    unfolding q1 using Cons.prems(2) by (rule InsertMessageInternal_filter_eq)
  from Cons.IH [OF 2 s1] Post_message_frame [OF 1] f1 show ?case unfolding 3 by simp
qed

lemma drain_fst_stable:
  "filter (\<lambda>x. deliverAt x = k) (fst (drain t q))
   = (if k = 0 \<or> k \<le> t then filter (\<lambda>x. deliverAt x = k) q else [])"
  by (induction q) (auto simp: drain_filter)

lemma Post_all_late:
  "Post_all (clock_jump t) [(Some 1, 1, 0), (Some 2, 0, 0)] (started 1)
   = Inr ([\<lparr>id_msg = 1, deliverAt = 11, interval = 0, func = Some 1\<rparr>,
           \<lparr>id_msg = 2, deliverAt = 0, interval = 0, func = Some 2\<rparr>],
          started 3\<lparr>ticks := 2,
            queue := [\<lparr>id_msg = 2, deliverAt = 0, interval = 0, func = Some 2\<rparr>,
                      \<lparr>id_msg = 1, deliverAt = 11, interval = 0, func = Some 1\<rparr>]\<rparr>)"
  by (simp add: Post_message_Inr started_def clock_jump_def InsertMessageInternal_def)

lemma Run_late:
  "11 \<le> t \<Longrightarrow> Run (clock_jump t) idle [[]]
     (started 3\<lparr>ticks := 2,
            queue := [\<lparr>id_msg = 2, deliverAt = 0, interval = 0, func = Some 2\<rparr>,
                      \<lparr>id_msg = 1, deliverAt = 11, interval = 0, func = Some 1\<rparr>]\<rparr>)
   = Looping (started 3\<lparr>ticks := 5,
        delivered := [(\<lparr>id_msg = 2, deliverAt = 0, interval = 0, func = Some 2\<rparr>, t),
                      (\<lparr>id_msg = 1, deliverAt = 11, interval = 0, func = Some 1\<rparr>, 11)]\<rparr>)"
  apply (simp add: iteration_def wait_eq deliver_due_eq deliver_def begin_delivery_eq invoke_def
        reinsert_def idle_def started_def clock_jump_def Let_def)
  done

lemma drain_prefix:
  "sorted (map deliverAt q) \<Longrightarrow> \<forall>x \<in> set q. 0 \<le> deliverAt x \<Longrightarrow>
   fst (drain t q) @ snd (drain t q) = q"
proof (induction q)
  case Nil
  then show ?case by simp
next
  case (Cons a q)
  then have IH: "fst (drain t q) @ snd (drain t q) = q" by simp
  show ?case
  proof (cases "deliverAt a = 0 \<or> deliverAt a \<le> t")
    case True
    then show ?thesis using IH by (auto simp: drain_filter)
  next
    case False
    then have "\<forall>x \<in> set q. \<not> (deliverAt x = 0 \<or> deliverAt x \<le> t)"
      using Cons.prems by fastforce
    then have "filter (\<lambda>m. deliverAt m = 0 \<or> deliverAt m \<le> t) q = []"
      "filter (\<lambda>m. \<not> (deliverAt m = 0 \<or> deliverAt m \<le> t)) q = q"
      by (simp_all add: filter_empty_conv filter_id_conv)
    then show ?thesis using False by (simp add: drain_filter)
  qed
qed

lemma deliver_inert:
  assumes "\<forall>f e. \<exists>e'. call f e = Return e'" "interval m \<le> 0" "deliver now call m w = Inr w'"
  shows "queue w' = queue w"
proof -
  from assms(3) obtain m1 w1 w2 where 1: "begin_delivery now m w = (m1, w1)"
    and 2: "invoke now call m1 w1 = Inr w2" and 3: "w' = reinsert m1 w2"
    by (rule deliver_cases)
  from begin_delivery_frame [OF 1] have q1: "queue w1 = queue w" "interval m1 = interval m" by simp_all
  have "queue w2 = queue w1"
  proof (cases "func m1")
    case None
    with 2 show ?thesis by (simp add: invoke_def)
  next
    case (Some f)
    from assms(1) obtain e' where "call f (env w1) = Return e'" by blast
    with 2 Some show ?thesis by (auto simp: invoke_def)
  qed
  with q1 assms(2) show ?thesis unfolding 3 by (simp add: reinsert_def)
qed

lemma deliver_all_inert:
  "\<forall>f e. \<exists>e'. call f e = Return e' \<Longrightarrow> \<forall>m \<in> set ms. interval m \<le> 0 \<Longrightarrow>
   deliver_all now call ms w = Inr w' \<Longrightarrow> queue w' = queue w"
proof (induction ms arbitrary: w)
  case Nil
  then show ?case by simp
next
  case (Cons m ms)
  from Cons.prems(3) obtain w1 where 1: "deliver now call m w = Inr w1"
    and 2: "deliver_all now call ms w1 = Inr w'"
    by (auto split: sum.splits)
  from Cons.prems have "queue w1 = queue w" using 1 by (intro deliver_inert [where m = m]) simp_all
  moreover from Cons.prems 2 have "queue w' = queue w1" by (intro Cons.IH) simp_all
  ultimately show ?case by simp
qed

text \<open>
  A pass over a sorted queue of one-shot messages of non-negative time, with callbacks
  that leave the message thread alone and no call from another thread: the messages
  delivered are an initial part of the queue.
\<close>

lemma iteration_inert:
  assumes inert: "\<forall>f e. \<exists>e'. call f e = Return e'"
    and s: "sorted (map deliverAt (queue w))"
    and o: "\<forall>m \<in> set (queue w). interval m \<le> 0 \<and> 0 \<le> deliverAt m"
    and it: "iteration now call [] w = Continue w'"
  shows "(\<exists>b. map fst (delivered w') = map fst (delivered w) @ b \<and> b @ queue w' = queue w)
    \<and> sorted (map deliverAt (queue w'))
    \<and> (\<forall>m \<in> set (queue w'). interval m \<le> 0 \<and> 0 \<le> deliverAt m)"
proof -
  let ?w = "w\<lparr>ticks := Suc (ticks w)\<rparr>"
  let ?t = "now (Suc (ticks w))"
  have wt: "wait now [] w = Inr ?w" by (simp add: wait_eq)
  with it have dd: "deliver_due now call ?w = Continue w'"
    by (auto simp: iteration_def split: if_splits)
  then have da: "deliver_all now call (fst (drain ?t (queue w)))
       (?w\<lparr>ticks := Suc (ticks ?w), queue := snd (drain ?t (queue w))\<rparr>) = Inr w'"
    by (auto simp: deliver_due_eq split: if_splits sum.splits)
  have b: "\<forall>m \<in> set (fst (drain ?t (queue w))). interval m \<le> 0"
    using o by (simp add: drain_filter)
  from deliver_all_inert [OF inert b da] have q: "queue w' = snd (drain ?t (queue w))" by simp
  from deliver_all_frame [OF da]
  have d: "map fst (delivered w') = map fst (delivered w) @ fst (drain ?t (queue w))" by simp
  have p: "fst (drain ?t (queue w)) @ queue w' = queue w"
    unfolding q using s o by (intro drain_prefix) simp_all
  have 2: "sorted (map deliverAt (queue w'))"
    unfolding q using s by (simp add: drain_filter sorted_filter_map)
  have 3: "\<forall>m \<in> set (queue w'). interval m \<le> 0 \<and> 0 \<le> deliverAt m"
    unfolding q using o by (simp add: drain_filter)
  from d p 2 3 show ?thesis by blast
qed

lemma Run_inert:
  "\<forall>f e. \<exists>e'. call f e = Return e' \<Longrightarrow> sorted (map deliverAt (queue w)) \<Longrightarrow>
   \<forall>m \<in> set (queue w). interval m \<le> 0 \<and> 0 \<le> deliverAt m \<Longrightarrow>
   Run now call (replicate n []) w = Looping w' \<Longrightarrow>
   \<exists>done. map fst (delivered w') = map fst (delivered w) @ done \<and> done @ queue w' = queue w"
proof (induction n arbitrary: w)
  case 0
  then show ?case by (auto split: if_splits)
next
  case (Suc n)
  from Suc.prems(4) have r: "running w" by (auto split: if_splits)
  show ?case
  proof (cases "iteration now call [] w")
    case (Break w1)
    with Suc.prems(4) r show ?thesis by simp
  next
    case (Abort e)
    with Suc.prems(4) r show ?thesis by simp
  next
    case (Continue w1)
    with Suc.prems(4) r have run: "Run now call (replicate n []) w1 = Looping w'" by simp
    from iteration_inert [OF Suc.prems(1) Suc.prems(2) Suc.prems(3) Continue]
    obtain b where 1: "map fst (delivered w1) = map fst (delivered w) @ b" "b @ queue w1 = queue w"
      and 2: "sorted (map deliverAt (queue w1))"
      and 3: "\<forall>m \<in> set (queue w1). interval m \<le> 0 \<and> 0 \<le> deliverAt m" by blast
    from Suc.IH [OF Suc.prems(1) 2 3 run]
    obtain c where 4: "map fst (delivered w') = map fst (delivered w1) @ c" "c @ queue w' = queue w1"
      by blast
    from 1 4 have "map fst (delivered w') = map fst (delivered w) @ (b @ c) \<and> (b @ c) @ queue w' = queue w"
      by simp
    then show ?thesis by blast
  qed
qed

lemma Post_all_set:
  "Post_all now ps w = Inr (ms, w') \<Longrightarrow> set (queue w') = set (queue w) \<union> set ms"
proof (induction ps arbitrary: w ms)
  case Nil
  then show ?case by simp
next
  case (Cons p ps)
  obtain f delay ival where p: "p = (f, delay, ival)" by (cases p)
  from Cons.prems(1) obtain m w1 ms' where
    1: "Post_message now f delay ival w = Inr (m, w1)" and
    2: "Post_all now ps w1 = Inr (ms', w')" and 3: "ms = m # ms'"
    by (auto simp: p split: sum.splits)
  from Post_message_cases(3) [OF 1] have "set (queue w1) = insert m (set (queue w))"
    by (simp add: InsertMessageInternal_set)
  with Cons.IH [OF 2] show ?case unfolding 3 by auto
qed

text \<open>
  C1, as amended. After any sequence of \<^verbatim>\<open>Post\<close> calls on an empty queue the queue is
  sorted by \<^verbatim>\<open>deliverAt\<close>, an immediate message counting with its 0, and for every
  value of \<^verbatim>\<open>deliverAt\<close> the messages queued with that value stand in the order in
  which they were posted. The messages that a pass of the loop takes from that queue
  are delivered in the order of the \<^verbatim>\<open>deliverAt\<close> they were queued with, not of the
  time an immediate message is stamped with; and for every value of \<^verbatim>\<open>deliverAt\<close>,
  the messages queued with that value are delivered in the order in which they were
  posted (all of them in this pass when the value is 0 or not after the time the
  worker reads, none of them otherwise). When moreover the messages are one-shot and
  of non-negative time, the callbacks leave the message thread alone and no other
  thread calls, then whatever the number of passes, the messages delivered are an
  initial part of that queue, delivered in its order, and the rest is still queued.
\<close>

theorem delivery_order:
  "queue w = [] \<and> Post_all now ps w = Inr (ms, w1) \<longrightarrow>
     sorted (map deliverAt (queue w1))
   \<and> (\<forall>k. filter (\<lambda>x. deliverAt x = k) (queue w1) = filter (\<lambda>x. deliverAt x = k) ms)
   \<and> (iteration now call [] w1 = Continue w2 \<longrightarrow>
        (\<exists>msgsToDeliverNow.
            map fst (delivered w2) = map fst (delivered w1) @ msgsToDeliverNow
          \<and> sorted (map deliverAt msgsToDeliverNow)
          \<and> (\<forall>k. filter (\<lambda>x. deliverAt x = k) msgsToDeliverNow
                = (if k = 0 \<or> k \<le> now (Suc (ticks w1))
                   then filter (\<lambda>x. deliverAt x = k) ms else []))))
   \<and> ((\<forall>m \<in> set ms. interval m \<le> 0 \<and> 0 \<le> deliverAt m)
        \<and> (\<forall>f e. \<exists>e'. call f e = Return e')
        \<and> Run now call (replicate n []) w1 = Looping w3 \<longrightarrow>
        (\<exists>done. map fst (delivered w3) = map fst (delivered w1) @ done
           \<and> done @ queue w3 = queue w1))"
proof
  assume h: "queue w = [] \<and> Post_all now ps w = Inr (ms, w1)"
  then have pa: "Post_all now ps w = Inr (ms, w1)" and e: "sorted (map deliverAt (queue w))" by simp_all
  from Post_all_stable [OF pa e] h have s1: "sorted (map deliverAt (queue w1))"
    and st: "\<And>k. filter (\<lambda>x. deliverAt x = k) (queue w1) = filter (\<lambda>x. deliverAt x = k) ms"
    by simp_all
  have c: "iteration now call [] w1 = Continue w2 \<longrightarrow>
        (\<exists>msgsToDeliverNow.
            map fst (delivered w2) = map fst (delivered w1) @ msgsToDeliverNow
          \<and> sorted (map deliverAt msgsToDeliverNow)
          \<and> (\<forall>k. filter (\<lambda>x. deliverAt x = k) msgsToDeliverNow
                = (if k = 0 \<or> k \<le> now (Suc (ticks w1))
                   then filter (\<lambda>x. deliverAt x = k) ms else [])))"
  proof
    assume it: "iteration now call [] w1 = Continue w2"
    let ?w = "w1\<lparr>ticks := Suc (ticks w1)\<rparr>"
    let ?b = "fst (drain (now (Suc (ticks w1))) (queue w1))"
    have wt: "wait now [] w1 = Inr ?w" by (simp add: wait_eq)
    with it have dd: "deliver_due now call ?w = Continue w2"
      by (auto simp: iteration_def split: if_splits)
    then have da: "deliver_all now call ?b
         (?w\<lparr>ticks := Suc (ticks ?w), queue := snd (drain (now (ticks ?w)) (queue ?w))\<rparr>) = Inr w2"
      by (auto simp: deliver_due_eq split: if_splits sum.splits)
    from deliver_all_frame [OF da] have 1: "map fst (delivered w2) = map fst (delivered w1) @ ?b" by simp
    have 2: "sorted (map deliverAt ?b)" using s1 by (simp add: drain_filter sorted_filter_map)
    have 3: "\<forall>k. filter (\<lambda>x. deliverAt x = k) ?b
              = (if k = 0 \<or> k \<le> now (Suc (ticks w1)) then filter (\<lambda>x. deliverAt x = k) ms else [])"
      by (simp add: drain_fst_stable st)
    from 1 2 3 show "\<exists>msgsToDeliverNow.
            map fst (delivered w2) = map fst (delivered w1) @ msgsToDeliverNow
          \<and> sorted (map deliverAt msgsToDeliverNow)
          \<and> (\<forall>k. filter (\<lambda>x. deliverAt x = k) msgsToDeliverNow
                = (if k = 0 \<or> k \<le> now (Suc (ticks w1))
                   then filter (\<lambda>x. deliverAt x = k) ms else []))"
      by blast
  qed
  have d: "(\<forall>m \<in> set ms. interval m \<le> 0 \<and> 0 \<le> deliverAt m)
        \<and> (\<forall>f e. \<exists>e'. call f e = Return e')
        \<and> Run now call (replicate n []) w1 = Looping w3 \<longrightarrow>
        (\<exists>done. map fst (delivered w3) = map fst (delivered w1) @ done
           \<and> done @ queue w3 = queue w1)"
  proof
    assume g: "(\<forall>m \<in> set ms. interval m \<le> 0 \<and> 0 \<le> deliverAt m)
        \<and> (\<forall>f e. \<exists>e'. call f e = Return e')
        \<and> Run now call (replicate n []) w1 = Looping w3"
    from Post_all_set [OF pa] h have "set (queue w1) = set ms" by simp
    with g have o: "\<forall>m \<in> set (queue w1). interval m \<le> 0 \<and> 0 \<le> deliverAt m" by simp
    from g have inert: "\<forall>f e. \<exists>e'. call f e = Return e'"
      and run: "Run now call (replicate n []) w1 = Looping w3" by blast+
    from Run_inert [OF inert s1 o run]
    show "\<exists>done. map fst (delivered w3) = map fst (delivered w1) @ done \<and> done @ queue w3 = queue w1" .
  qed
  from s1 st c d show "sorted (map deliverAt (queue w1))
   \<and> (\<forall>k. filter (\<lambda>x. deliverAt x = k) (queue w1) = filter (\<lambda>x. deliverAt x = k) ms)
   \<and> (iteration now call [] w1 = Continue w2 \<longrightarrow>
        (\<exists>msgsToDeliverNow.
            map fst (delivered w2) = map fst (delivered w1) @ msgsToDeliverNow
          \<and> sorted (map deliverAt msgsToDeliverNow)
          \<and> (\<forall>k. filter (\<lambda>x. deliverAt x = k) msgsToDeliverNow
                = (if k = 0 \<or> k \<le> now (Suc (ticks w1))
                   then filter (\<lambda>x. deliverAt x = k) ms else []))))
   \<and> ((\<forall>m \<in> set ms. interval m \<le> 0 \<and> 0 \<le> deliverAt m)
        \<and> (\<forall>f e. \<exists>e'. call f e = Return e')
        \<and> Run now call (replicate n []) w1 = Looping w3 \<longrightarrow>
        (\<exists>done. map fst (delivered w3) = map fst (delivered w1) @ done
           \<and> done @ queue w3 = queue w1))" by blast
qed

theorem delivery_order_witness:
  "queue (started 1) = []
   \<and> Post_all (clock_jump 12) [(Some 1, 1, 0), (Some 2, 0, 0)] (started 1)
     = Inr ([\<lparr>id_msg = 1, deliverAt = 11, interval = 0, func = Some 1\<rparr>,
             \<lparr>id_msg = 2, deliverAt = 0, interval = 0, func = Some 2\<rparr>],
            started 3\<lparr>ticks := 2,
              queue := [\<lparr>id_msg = 2, deliverAt = 0, interval = 0, func = Some 2\<rparr>,
                        \<lparr>id_msg = 1, deliverAt = 11, interval = 0, func = Some 1\<rparr>]\<rparr>)
   \<and> iteration (clock_jump 12) idle []
        (started 3\<lparr>ticks := 2,
              queue := [\<lparr>id_msg = 2, deliverAt = 0, interval = 0, func = Some 2\<rparr>,
                        \<lparr>id_msg = 1, deliverAt = 11, interval = 0, func = Some 1\<rparr>]\<rparr>)
     = Continue (started 3\<lparr>ticks := 5,
        delivered := [(\<lparr>id_msg = 2, deliverAt = 0, interval = 0, func = Some 2\<rparr>, 12),
                      (\<lparr>id_msg = 1, deliverAt = 11, interval = 0, func = Some 1\<rparr>, 11)]\<rparr>)
   \<and> (\<forall>f e. \<exists>e'. idle f e = Return e')
   \<and> Run (clock_jump 12) idle (replicate 1 [])
        (started 3\<lparr>ticks := 2,
              queue := [\<lparr>id_msg = 2, deliverAt = 0, interval = 0, func = Some 2\<rparr>,
                        \<lparr>id_msg = 1, deliverAt = 11, interval = 0, func = Some 1\<rparr>]\<rparr>)
     = Looping (started 3\<lparr>ticks := 5,
        delivered := [(\<lparr>id_msg = 2, deliverAt = 0, interval = 0, func = Some 2\<rparr>, 12),
                      (\<lparr>id_msg = 1, deliverAt = 11, interval = 0, func = Some 1\<rparr>, 11)]\<rparr>)
   \<and> sorted (map deliverAt [\<lparr>id_msg = 2, deliverAt = 0, interval = 0, func = Some (2::nat)\<rparr>,
                      \<lparr>id_msg = 1, deliverAt = 11, interval = 0, func = Some 1\<rparr>])"
  using delivery_order [where w = "started 1" and now = "clock_jump 12"
      and ps = "[(Some 1, 1, 0), (Some 2, 0, 0)]" and call = idle and n = 1
      and ms = "[\<lparr>id_msg = 1, deliverAt = 11, interval = 0, func = Some 1\<rparr>,
             \<lparr>id_msg = 2, deliverAt = 0, interval = 0, func = Some 2\<rparr>]"
      and ?w1.0 = "started 3\<lparr>ticks := 2,
              queue := [\<lparr>id_msg = 2, deliverAt = 0, interval = 0, func = Some 2\<rparr>,
                        \<lparr>id_msg = 1, deliverAt = 11, interval = 0, func = Some 1\<rparr>]\<rparr>"
      and ?w2.0 = "started 3\<lparr>ticks := 5,
        delivered := [(\<lparr>id_msg = 2, deliverAt = 0, interval = 0, func = Some 2\<rparr>, 12),
                      (\<lparr>id_msg = 1, deliverAt = 11, interval = 0, func = Some 1\<rparr>, 11)]\<rparr>"
      and ?w3.0 = "started 3\<lparr>ticks := 5,
        delivered := [(\<lparr>id_msg = 2, deliverAt = 0, interval = 0, func = Some 2\<rparr>, 12),
                      (\<lparr>id_msg = 1, deliverAt = 11, interval = 0, func = Some 1\<rparr>, 11)]\<rparr>"]
  by (simp add: Post_message_Inr iteration_def wait_eq deliver_due_eq deliver_def begin_delivery_eq
      invoke_def reinsert_def idle_def started_def clock_jump_def InsertMessageInternal_def Let_def)

text \<open>
  C1, as stated, fails for the \<^verbatim>\<open>deliverAt\<close> that the messages carry at their delivery.
  Message 1 is posted with delay 1 at time 10, message 2 with delay 0 after it, and
  the worker gets to run at time 12: message 2 is delivered first and carries 12,
  message 1 is delivered second and carries 11. When the worker gets to run at time
  11 the two carry the same \<^verbatim>\<open>deliverAt\<close> 11, and the one posted second is delivered
  first.
\<close>

theorem stamped_order_counterexample:
  "(case Post_all (clock_jump 12) [(Some 1, 1, 0), (Some 2, 0, 0)] (started 1) of
      Inl e \<Rightarrow> False
    | Inr (ms, w) \<Rightarrow>
        map id_msg ms = [1, 2]
        \<and> (case Run (clock_jump 12) idle [[]] w of
             Looping w' \<Rightarrow>
               map (id_msg \<circ> fst) (delivered w') = [2, 1] \<and> map snd (delivered w') = [12, 11]
               \<and> \<not> sorted (map snd (delivered w'))
           | _ \<Rightarrow> False))
   \<and> (case Post_all (clock_jump 11) [(Some 1, 1, 0), (Some 2, 0, 0)] (started 1) of
      Inl e \<Rightarrow> False
    | Inr (ms, w) \<Rightarrow>
        map id_msg ms = [1, 2]
        \<and> (case Run (clock_jump 11) idle [[]] w of
             Looping w' \<Rightarrow>
               map (id_msg \<circ> fst) (delivered w') = [2, 1] \<and> map snd (delivered w') = [11, 11]
           | _ \<Rightarrow> False))"
proof -
  have a: "Run (clock_jump 12) idle [[]]
     (started 3\<lparr>ticks := 2,
            queue := [\<lparr>id_msg = 2, deliverAt = 0, interval = 0, func = Some 2\<rparr>,
                      \<lparr>id_msg = 1, deliverAt = 11, interval = 0, func = Some 1\<rparr>]\<rparr>)
   = Looping (started 3\<lparr>ticks := 5,
        delivered := [(\<lparr>id_msg = 2, deliverAt = 0, interval = 0, func = Some 2\<rparr>, 12),
                      (\<lparr>id_msg = 1, deliverAt = 11, interval = 0, func = Some 1\<rparr>, 11)]\<rparr>)"
    by (rule Run_late) simp
  have b: "Run (clock_jump 11) idle [[]]
     (started 3\<lparr>ticks := 2,
            queue := [\<lparr>id_msg = 2, deliverAt = 0, interval = 0, func = Some 2\<rparr>,
                      \<lparr>id_msg = 1, deliverAt = 11, interval = 0, func = Some 1\<rparr>]\<rparr>)
   = Looping (started 3\<lparr>ticks := 5,
        delivered := [(\<lparr>id_msg = 2, deliverAt = 0, interval = 0, func = Some 2\<rparr>, 11),
                      (\<lparr>id_msg = 1, deliverAt = 11, interval = 0, func = Some 1\<rparr>, 11)]\<rparr>)"
    by (rule Run_late) simp
  show ?thesis
    unfolding Post_all_late sum.case old.prod.case a b outcome.case
    by (simp add: started_def)
qed

end
